theory Spec2Isabelle
  imports Main "HOL-Library.AList" "HOL-Library.List_Lexorder"
begin

section \<open>Python strings\<close>

text \<open>
  A Python \<open>str\<close> is a sequence of Unicode code points; a code point is modelled by its
  number, so that the non-ASCII skip marker of \<open>main.py\<close> and the non-ASCII whitespace
  that \<open>str.strip\<close> removes are both representable. \<open>str\<close> turns an ASCII literal
  into such a string.
\<close>

type_synonym ustring = "nat list"

definition str :: "string \<Rightarrow> ustring" where
  "str s = map of_char s"

text \<open>The code points for which Python's \<open>str.isspace\<close> holds; \<open>str.strip()\<close>
  removes exactly these from both ends.\<close>

definition isspace :: "nat \<Rightarrow> bool" where
  "isspace c \<longleftrightarrow>
     (9 \<le> c \<and> c \<le> 13) \<or> (28 \<le> c \<and> c \<le> 32) \<or> c = 133 \<or> c = 160 \<or> c = 5760 \<or>
     (8192 \<le> c \<and> c \<le> 8202) \<or> c = 8232 \<or> c = 8233 \<or> c = 8239 \<or> c = 8287 \<or> c = 12288"

definition strip :: "ustring \<Rightarrow> ustring" where
  "strip s = rev (dropWhile isspace (rev (dropWhile isspace s)))"

text \<open>\<open>s.split(sep)\<close> for a one-character separator: a cut at every occurrence, so the
  result is never empty and adjacent separators give empty pieces.\<close>

fun split :: "nat \<Rightarrow> ustring \<Rightarrow> ustring list" where
  "split sep [] = [[]]"
| "split sep (c # cs) =
     (if c = sep then [] # split sep cs
      else (case split sep cs of
              [] \<Rightarrow> [[c]]
            | p # ps \<Rightarrow> (c # p) # ps))"

text \<open>\<open>sep.join(xs)\<close>.\<close>

fun join :: "ustring \<Rightarrow> ustring list \<Rightarrow> ustring" where
  "join sep [] = []"
| "join sep [x] = x"
| "join sep (x # y # ys) = x @ sep @ join sep (y # ys)"

text \<open>\<open>sub in s\<close> on strings: \<open>sub\<close> occurs in \<open>s\<close> as a contiguous run.\<close>

fun contains :: "ustring \<Rightarrow> ustring \<Rightarrow> bool" where
  "contains sub [] \<longleftrightarrow> sub = []"
| "contains sub (c # cs) \<longleftrightarrow> take (length sub) (c # cs) = sub \<or> contains sub cs"

text \<open>\<open>file.readlines()\<close> (and repeated \<open>file.readline()\<close>) on the text of a file: the
  lines in order, each with its line feed, the last one without when the text does not
  end in one. The text of a file is what Python's text layer hands over: decoded, and
  with every line end translated to a line feed.\<close>

fun readlines :: "ustring \<Rightarrow> ustring list" where
  "readlines [] = []"
| "readlines (c # cs) =
     (if c = 10 then [10] # readlines cs
      else (case readlines cs of
              [] \<Rightarrow> [[c]]
            | l # ls \<Rightarrow> (c # l) # ls))"

abbreviation TAB :: nat where "TAB \<equiv> 9"
abbreviation SPACE :: nat where "SPACE \<equiv> 32"
abbreviation COMMA :: nat where "COMMA \<equiv> 44"
abbreviation COLON :: nat where "COLON \<equiv> 58"


section \<open>Data model\<close>

text \<open>The exceptions that escape a function of \<open>main.py\<close>.\<close>

datatype error = AssertionError | IndexError | UnboundLocalError | ValueError

text \<open>\<open>ConfigType\<close> is \<open>Optional[Dict[str, Set[str]]]\<close>. The dictionary keeps its keys in
  insertion order, and assigning to a key that is there keeps its place: an association
  list changed by \<open>AList.update\<close> only.\<close>

type_synonym config = "(ustring \<times> ustring set) list"

text \<open>A value of \<open>Word.parts\<close>: \<open>config.get(part, part)\<close> is the tag itself, or the set of
  terms of the category that is named like the tag.\<close>

datatype resolved = Tag ustring | Terms "ustring set"

record word =
  verse_id :: ustring
  form :: ustring
  transliterated_form :: ustring
  fts :: "ustring list option"
  parts :: "(ustring \<times> resolved) list option"
  word_lemma :: "ustring option"
  transliterated_lemma :: "ustring option"
  translation :: "ustring option"

definition skip_chars :: "ustring list" where
  "skip_chars = [str ''['', str '']'', [226, 8212, 166]]"

definition DEFAULT_PARTS :: "(ustring \<times> ustring list) list" where
  "DEFAULT_PARTS =
    [(str ''verse'', [str ''Particle'', str ''Verb'', str ''Noun'', str ''Suffix'',
                      str ''Pronoun'', str ''Adjective'', str ''Paragraph'', str ''Noun'']),
     (str ''pos'', [str ''noun'', str ''verb'', str ''particle'', str ''adjective'']),
     (str ''number'', [str ''singular'', str ''plural'']),
     (str ''gender'', [str ''masculine'', str ''feminine'']),
     (str ''tense'', [str ''perfect'', str ''imperfect'']),
     (str ''person'', [str ''first'', str ''second'', str ''third'']),
     (str ''binyan'', [str ''qal'', str ''piel'', str ''hifil'', str ''nifal'', str ''pual'',
                       str ''hitpael'', str ''hofal'', str ''passiveqal'', str ''polel'',
                       str ''hitpolel''])]"

section \<open>Reading the configuration\<close>

text \<open>The loop of \<open>read_config\<close> over \<open>file.readlines()\<close>; \<open>ret\<close> is the dictionary built so
  far. A line that \<open>split(':')\<close> does not cut into two pieces raises \<open>ValueError\<close>.\<close>

fun read_config_lines :: "ustring list \<Rightarrow> config \<Rightarrow> error + config" where
  "read_config_lines [] ret = Inr ret"
| "read_config_lines (line # rest) ret =
     (let ps = split COLON line in
      if length ps = 2 then
        (let terms = split COMMA (ps ! 1);
             title = strip (ps ! 0)
         in read_config_lines rest (AList.update title (set terms) ret))
      else Inl ValueError)"

text \<open>\<open>read_config\<close>, on the text of \<open>config.txt\<close> (\<open>None\<close> when the file does not exist).
  Every exception is caught and turned into \<open>None\<close>.\<close>

definition read_config :: "ustring option \<Rightarrow> config option" where
  "read_config configfile =
     (case configfile of
        None \<Rightarrow> None
      | Some text \<Rightarrow>
          (case read_config_lines (readlines text) [] of
             Inl e \<Rightarrow> None
           | Inr ret \<Rightarrow> Some ret))"

section \<open>Parsing the corpus\<close>

text \<open>\<open>config.get(part, part)\<close>: the terms of the category named \<open>part\<close>, and \<open>part\<close> itself
  when no category has that name.\<close>

definition config_get :: "config \<Rightarrow> ustring \<Rightarrow> resolved" where
  "config_get cfg part = (case map_of cfg part of Some terms \<Rightarrow> Terms terms | None \<Rightarrow> Tag part)"

text \<open>\<open>handle_parts\<close>: the dictionary comprehension assigns the keys in the order of the
  tags.\<close>

definition handle_parts :: "ustring \<Rightarrow> config option \<Rightarrow> (ustring \<times> resolved) list option" where
  "handle_parts ps config =
     (case config of
        None \<Rightarrow> None
      | Some cfg \<Rightarrow>
          Some (foldl (\<lambda>d part. AList.update part (config_get cfg part) d)
                [] (split SPACE ps)))"

text \<open>\<open>parse_word\<close> reads \<open>parts[0]\<close> to \<open>parts[3]\<close> and \<open>parts[-1]\<close>, and \<open>parts[4]\<close> only
  when there are six fields: fewer than four fields raise \<open>IndexError\<close>.\<close>

definition parse_word :: "ustring \<Rightarrow> ustring list \<Rightarrow> config option \<Rightarrow> error + word" where
  "parse_word verse ps config =
     (if length ps < 4 then Inl IndexError
      else Inr \<lparr>verse_id = verse,
                form = ps ! 0,
                transliterated_form = ps ! 1,
                fts = (if length ps = 6 then Some (split SPACE (ps ! 4)) else None),
                parts = (if length ps = 6 then handle_parts (ps ! 4) config else None),
                word_lemma = Some (ps ! 2),
                transliterated_lemma = Some (ps ! 3),
                translation = Some (last ps)\<rparr>)"

definition parse_suffix :: "ustring \<Rightarrow> ustring list \<Rightarrow> config option \<Rightarrow> error + word" where
  "parse_suffix verse ps config =
     (if length ps < 3 then Inl IndexError
      else Inr \<lparr>verse_id = verse,
                form = ps ! 0,
                transliterated_form = ps ! 1,
                fts = Some (split SPACE (ps ! 2)),
                parts = handle_parts (ps ! 2) config,
                word_lemma = None,
                transliterated_lemma = None,
                translation = None\<rparr>)"

text \<open>The \<open>while True\<close> loop of \<open>parse_verse\<close>. The open file is the list of the lines not
  read yet; \<open>readline()\<close> at the end of the file gives the empty string, which ends the
  loop. The result is \<open>ret\<close> and the lines left in the file.\<close>

fun parse_body ::
  "ustring \<Rightarrow> ustring list \<Rightarrow> config option \<Rightarrow> word list \<Rightarrow> error + (word list \<times> ustring list)"
where
  "parse_body verse [] config ret = Inr (ret, [])"
| "parse_body verse (raw # rest) config ret =
     (let line = strip raw in
      if list_ex (\<lambda>skip_char. contains skip_char line) skip_chars then
        parse_body verse rest config ret
      else if line = [] then Inr (ret, rest)
      else
        (let ps = split TAB line in
         if length ps = 3 then
           (case parse_suffix verse ps config of
              Inl e \<Rightarrow> Inl e
            | Inr w \<Rightarrow> parse_body verse rest config (ret @ [w]))
         else if length ps = 5 \<or> length ps = 6 then
           (case parse_word verse ps config of
              Inl e \<Rightarrow> Inl e
            | Inr w \<Rightarrow> parse_body verse rest config (ret @ [w]))
         else parse_body verse rest config ret))"

definition parse_verse ::
  "ustring list \<Rightarrow> config option \<Rightarrow> error + (word list \<times> ustring list)"
where
  "parse_verse open_file config =
     (let verse = strip (case open_file of [] \<Rightarrow> [] | l # _ \<Rightarrow> l) in
      if TAB \<in> set verse then Inl AssertionError
      else parse_body verse (tl open_file) config [])"


text \<open>The body of a verse never returns more lines than it was given: the loop of
  \<open>parse_file\<close> makes progress.\<close>

lemma parse_body_rest_length:
  "parse_body verse ls config ret = Inr (ws, r) \<Longrightarrow> length r \<le> length ls"
proof (induction ls arbitrary: ret)
  case Nil
  then show ?case by simp
next
  case (Cons raw rest)
  have step: "length r \<le> Suc (length rest)"
    if "parse_body verse rest config ret' = Inr (ws, r)" for ret'
    using Cons.IH [OF that] by simp
  from Cons.prems show ?case
    by (auto simp: Let_def split: if_splits sum.splits intro: step)
qed

lemma parse_verse_rest_length:
  assumes "parse_verse open_file config = Inr (ws, r)" and "r \<noteq> []"
  shows "length r < length open_file"
proof (cases open_file)
  case Nil
  with assms show ?thesis
    by (simp add: parse_verse_def Let_def split: if_splits)
next
  case (Cons l ls)
  with assms(1) have "parse_body (strip l) ls config [] = Inr (ws, r)"
    by (simp add: parse_verse_def Let_def split: if_splits)
  then have "length r \<le> length ls"
    by (rule parse_body_rest_length)
  with Cons show ?thesis by simp
qed

text \<open>The \<open>while True\<close> loop of \<open>parse_file\<close>: a verse is parsed before the end of the file
  is looked for, and \<open>has_another_line\<close> holds when a line is left.\<close>

function parse_file_loop :: "ustring list \<Rightarrow> config option \<Rightarrow> word list \<Rightarrow> error + word list" where
  "parse_file_loop open_file config ret =
     (case parse_verse open_file config of
        Inl e \<Rightarrow> Inl e
      | Inr (verse, rest) \<Rightarrow>
          if rest = [] then Inr (ret @ verse)
          else parse_file_loop rest config (ret @ verse))"
  by pat_completeness auto
termination
  by (relation "measure (\<lambda>(open_file, config, ret). length open_file)")
     (auto dest: parse_verse_rest_length)

declare parse_file_loop.simps [simp del]

text \<open>\<open>parse_file\<close>, on the decoded text of the file.\<close>

definition parse_file :: "ustring \<Rightarrow> config option \<Rightarrow> error + word list" where
  "parse_file text config = parse_file_loop (readlines text) config []"

section \<open>Writing the configuration\<close>

text \<open>The set \<open>parts\<close> of \<open>write_config\<close>: the tags of every word whose \<open>fts\<close> is neither
  \<open>None\<close> nor empty.\<close>

definition collect_parts :: "word list \<Rightarrow> ustring set" where
  "collect_parts words =
     foldl (\<lambda>ps w. case fts w of
                     None \<Rightarrow> ps
                   | Some ts \<Rightarrow> if ts = [] then ps else ps \<union> set ts)
           {} words"

text \<open>The inner loop over the features of one category: a feature that is in
  \<open>met_parts\<close> is removed from it.\<close>

definition remove_features :: "ustring list \<Rightarrow> ustring list \<Rightarrow> ustring list" where
  "remove_features features met_parts =
     foldl (\<lambda>met feature. if feature \<in> set met then remove1 feature met else met)
           met_parts features"

text \<open>The loop over \<open>DEFAULT_PARTS.items()\<close>; the state is the text written so far and
  \<open>met_parts\<close>.\<close>

definition write_defaults ::
  "(ustring \<times> ustring list) list \<Rightarrow> ustring \<times> ustring list \<Rightarrow> ustring \<times> ustring list"
where
  "write_defaults defaults st =
     foldl (\<lambda>(file, met_parts) (name, features).
              (file @ name @ str '': '' @ join (str '', '') features @ [10],
               remove_features features met_parts))
           st defaults"

text \<open>\<open>write_config\<close>: the text written to \<open>config.txt\<close>. \<open>lower\<close> is \<open>str.lower\<close>, the sort
  key. Python iterates over a set in an order of its own; the model takes the elements in
  increasing order before the stable sort by the key.\<close>

definition write_config :: "(ustring \<Rightarrow> ustring) \<Rightarrow> word list \<Rightarrow> ustring" where
  "write_config lower words =
     (let met_parts = sort_key lower (sorted_list_of_set (collect_parts words));
          (file, met_parts) = write_defaults DEFAULT_PARTS ([], met_parts)
      in if met_parts \<noteq> [] then file @ str ''other: '' @ join (str '', '') met_parts
         else file)"

section \<open>Writing the table\<close>

text \<open>A row is the dictionary \<open>w\<close> of \<open>write_csv\<close>; a cell is \<open>None\<close> or a string.\<close>

type_synonym row = "(ustring \<times> ustring option) list"

definition base_row :: "word \<Rightarrow> row" where
  "base_row word =
     [(str ''verse_id'', Some (verse_id word)),
      (str ''form'', Some (form word)),
      (str ''transliterated_form'', Some (transliterated_form word)),
      (str ''lemma'', word_lemma word),
      (str ''transliterated_lemma'', transliterated_lemma word),
      (str ''fts'',
         (case fts word of
            None \<Rightarrow> None
          | Some ts \<Rightarrow> if ts = [] then None
                      else Some (str ''['' @ join (str '', '') ts @ str '']''))),
      (str ''translation'', translation word)]"

text \<open>The value of one category column: the terms of the category that are keys of
  \<open>word.parts\<close>, joined by commas (in increasing order, see \<open>write_config\<close>).\<close>

definition met_terms :: "ustring set \<Rightarrow> word \<Rightarrow> ustring set option" where
  "met_terms config_terms word =
     (case parts word of
        None \<Rightarrow> None
      | Some d \<Rightarrow> if d = [] then None else Some (config_terms \<inter> set (map fst d)))"

definition column_value :: "ustring set \<Rightarrow> word \<Rightarrow> ustring" where
  "column_value config_terms word =
     (case met_terms config_terms word of
        None \<Rightarrow> []
      | Some m \<Rightarrow> if m = {} then [] else join [COMMA] (sorted_list_of_set m))"

definition csv_row :: "config \<Rightarrow> word \<Rightarrow> row" where
  "csv_row config word =
     foldl (\<lambda>w (config_title, config_terms).
              AList.update config_title (Some (column_value config_terms word)) w)
           (base_row word) config"

text \<open>\<open>write_csv\<close>: the header and the rows written to \<open>output.csv\<close>. The field names are
  the keys of \<open>w\<close>, the row of the last word; with no word \<open>w\<close> was never assigned.\<close>

definition write_csv :: "word list \<Rightarrow> config \<Rightarrow> error + (ustring list \<times> row list)" where
  "write_csv words config =
     (let out = map (csv_row config) words in
      if words = [] then Inl UnboundLocalError
      else Inr (map fst (csv_row config (last words)), out))"

section \<open>The program\<close>

text \<open>The source directory: the text of \<open>config.txt\<close> and of \<open>output.csv\<close> when they exist,
  and the texts of the files \<open>rip_*.txt\<close> in the order of their names.\<close>

record source_dir =
  config_txt :: "ustring option"
  rip_files :: "ustring list"
  output_csv :: "(ustring list \<times> row list) option"

fun parse_files :: "ustring list \<Rightarrow> config option \<Rightarrow> word list \<Rightarrow> error + word list" where
  "parse_files [] config words = Inr words"
| "parse_files (file # files) config words =
     (case parse_file file config of
        Inl e \<Rightarrow> Inl e
      | Inr ws \<Rightarrow> parse_files files config (words @ ws))"

definition main :: "(ustring \<Rightarrow> ustring) \<Rightarrow> source_dir \<Rightarrow> error + source_dir" where
  "main lower dir =
     (let config = read_config (config_txt dir) in
      case parse_files (rip_files dir) config [] of
        Inl e \<Rightarrow> Inl e
      | Inr words \<Rightarrow>
          (case config of
             None \<Rightarrow> Inr (dir\<lparr>config_txt := Some (write_config lower words)\<rparr>)
           | Some cfg \<Rightarrow>
               (case write_csv words cfg of
                  Inl e \<Rightarrow> Inl e
                | Inr out \<Rightarrow> Inr (dir\<lparr>output_csv := Some out\<rparr>))))"

section \<open>Facts about the string operations\<close>

lemma split_not_Nil [simp]: "split sep s \<noteq> []"
  by (induction s) (auto split: list.splits)

lemma length_split: "length (split sep s) = Suc (count_list s sep)"
  by (induction s) (auto split: list.splits)

lemma split_pieces_free: "p \<in> set (split sep s) \<Longrightarrow> sep \<notin> set p"
proof (induction s arbitrary: p)
  case Nil
  then show ?case by simp
next
  case (Cons c cs)
  show ?case
  proof (cases "c = sep")
    case True
    with Cons show ?thesis by auto
  next
    case False
    obtain q qs where q: "split sep cs = q # qs"
      by (cases "split sep cs") simp_all
    with False Cons.prems have "p = c # q \<or> p \<in> set qs" by simp
    then show ?thesis
    proof
      assume "p = c # q"
      moreover have "sep \<notin> set q" using Cons.IH [of q] q by simp
      ultimately show ?thesis using False by simp
    next
      assume "p \<in> set qs"
      then show ?thesis using Cons.IH [of p] q by simp
    qed
  qed
qed

lemma split_free [simp]: "sep \<notin> set s \<Longrightarrow> split sep s = [s]"
  by (induction s) auto

lemma split_append_sep:
  "sep \<notin> set x \<Longrightarrow> split sep (x @ sep # s) = x # split sep s"
  by (induction x) auto

lemma split_join:
  "xs \<noteq> [] \<Longrightarrow> (\<And>x. x \<in> set xs \<Longrightarrow> sep \<notin> set x) \<Longrightarrow> split sep (join [sep] xs) = xs"
proof (induction "[sep]" xs rule: join.induct)
  case 1
  then show ?case by simp
next
  case (2 x)
  then show ?case by simp
next
  case (3 x y ys)
  then show ?case by (simp add: split_append_sep)
qed

lemma strip_Nil [simp]: "strip [] = []"
  by (simp add: strip_def)

section \<open>The configuration file\<close>

text \<open>What the loop of \<open>read_config\<close> builds when no line fails: every line has been cut at
  its colon and assigned, in order.\<close>

definition config_of_lines :: "ustring list \<Rightarrow> config" where
  "config_of_lines ls =
     foldl (\<lambda>ret line.
              AList.update (strip (split COLON line ! 0)) (set (split COMMA (split COLON line ! 1))) ret)
           [] ls"

text \<open>The words of the specification, "split into two parts on the first colon": the text
  before the first colon and the text after it, for a line that has a colon.\<close>

definition splits_at_first_colon :: "ustring \<Rightarrow> (ustring \<times> ustring) option" where
  "splits_at_first_colon line =
     (if COLON \<in> set line
      then Some (takeWhile (\<lambda>c. c \<noteq> COLON) line, tl (dropWhile (\<lambda>c. c \<noteq> COLON) line))
      else None)"

lemma read_config_lines_acc:
  "read_config_lines ls ret =
     (if list_all (\<lambda>line. count_list line COLON = 1) ls
      then Inr (foldl (\<lambda>ret line.
              AList.update (strip (split COLON line ! 0)) (set (split COMMA (split COLON line ! 1))) ret)
           ret ls)
      else Inl ValueError)"
  by (induction ls arbitrary: ret) (simp_all add: Let_def length_split)

text \<open>
  C4 (as amended). \<open>split(':')\<close> cuts a line at every colon, so the lines that raise the
  format error are exactly those that do not hold one colon and no more: a line without
  a colon, and also a line with two colons or more. One such line makes the whole read
  give \<open>None\<close>; otherwise the result is the configuration of all the lines, so a part of
  the lines is never returned.
\<close>

theorem read_config_all_or_nothing:
  "read_config (Some text) =
     (if list_all (\<lambda>line. count_list line COLON = 1) (readlines text)
      then Some (config_of_lines (readlines text))
      else None)
   \<and> (read_config_lines (readlines text) [] = Inl ValueError) =
       (\<exists>line \<in> set (readlines text). count_list line COLON \<noteq> 1)"
  by (simp add: read_config_def read_config_lines_acc config_of_lines_def list_all_iff)

text \<open>The line \<open>a:b:c\<close> splits into two parts at its first colon, and still fails the
  read.\<close>

theorem read_config_first_colon_counterexample:
  "readlines (str ''a:b:c'') = [str ''a:b:c'']
   \<and> splits_at_first_colon (str ''a:b:c'') = Some (str ''a'', str ''b:c'')
   \<and> read_config (Some (str ''a:b:c'')) = None"
  by (simp add: read_config_def str_def splits_at_first_colon_def)

text \<open>
  C8 (as amended). The line \<open>pos: noun,verb, particle\<close> gives the category \<open>pos\<close> with the
  values \<open>" noun"\<close>, \<open>"verb"\<close> and \<open>" particle"\<close>: only the category name is stripped, so
  the first value keeps the space that follows the colon, and the last value keeps the
  line feed of a line that ends in one.
\<close>

theorem read_config_pos_line:
  "read_config (Some (str ''pos: noun,verb, particle'')) =
     Some [(str ''pos'', {str '' noun'', str ''verb'', str '' particle''})]
   \<and> read_config (Some (str ''pos: noun,verb, particle'' @ [10])) =
     Some [(str ''pos'', {str '' noun'', str ''verb'', str '' particle'' @ [10]})]"
  by (simp add: read_config_def str_def strip_def isspace_def)

text \<open>The value set with \<open>"noun"\<close> in the place of \<open>" noun"\<close> is not what is read.\<close>

theorem read_config_pos_line_counterexample:
  "read_config (Some (str ''pos: noun,verb, particle'')) \<noteq>
     Some [(str ''pos'', {str ''noun'', str ''verb'', str '' particle''})]"
proof
  assume "read_config (Some (str ''pos: noun,verb, particle'')) =
     Some [(str ''pos'', {str ''noun'', str ''verb'', str '' particle''})]"
  then have "{str '' noun'', str ''verb'', str '' particle''} =
             {str ''noun'', str ''verb'', str '' particle''}"
    by (simp add: read_config_def str_def strip_def isspace_def)
  then have "str '' noun'' \<in> {str ''noun'', str ''verb'', str '' particle''}"
    by blast
  then show False
    by (simp add: str_def)
qed


section \<open>The lines of a verse\<close>

lemma skip_chars_nonempty [simp]: "\<not> list_ex (\<lambda>skip_char. skip_char = []) skip_chars"
  by (simp add: skip_chars_def str_def)

lemma parse_suffix_fields:
  "parse_suffix verse [f1, f2, f3] config =
     Inr \<lparr>verse_id = verse, form = f1, transliterated_form = f2,
          fts = Some (split SPACE f3), parts = handle_parts f3 config,
          word_lemma = None, transliterated_lemma = None, translation = None\<rparr>"
  by (simp add: parse_suffix_def)

lemma parse_word_fields5:
  "parse_word verse [f1, f2, f3, f4, f5] config =
     Inr \<lparr>verse_id = verse, form = f1, transliterated_form = f2,
          fts = None, parts = None,
          word_lemma = Some f3, transliterated_lemma = Some f4, translation = Some f5\<rparr>"
  by (simp add: parse_word_def)

lemma parse_word_fields6:
  "parse_word verse [f1, f2, f3, f4, f5, f6] config =
     Inr \<lparr>verse_id = verse, form = f1, transliterated_form = f2,
          fts = Some (split SPACE f5), parts = handle_parts f5 config,
          word_lemma = Some f3, transliterated_lemma = Some f4, translation = Some f6\<rparr>"
  by (simp add: parse_word_def)

lemma parse_suffix_Inr: "length ps = 3 \<Longrightarrow> \<exists>w. parse_suffix verse ps config = Inr w"
  by (simp add: parse_suffix_def)

lemma parse_word_Inr: "length ps = 5 \<or> length ps = 6 \<Longrightarrow> \<exists>w. parse_word verse ps config = Inr w"
  by (auto simp: parse_word_def)

text \<open>The body of a verse never raises, keeps the words it was given and returns the lines
  after the first blank line.\<close>

fun body_rest :: "ustring list \<Rightarrow> ustring list" where
  "body_rest [] = []"
| "body_rest (raw # rest) = (if strip raw = [] then rest else body_rest rest)"

lemma parse_body_total:
  "\<exists>ws. parse_body verse ls config ret = Inr (ret @ ws, body_rest ls)"
proof (induction ls arbitrary: ret)
  case Nil
  show ?case by simp
next
  case (Cons raw rest)
  let ?line = "strip raw"
  let ?ps = "split TAB ?line"
  show ?case
  proof (cases "list_ex (\<lambda>skip_char. contains skip_char ?line) skip_chars")
    case True
    then have "?line \<noteq> []" by auto
    with True Cons.IH [of ret] show ?thesis by simp
  next
    case noskip: False
    show ?thesis
    proof (cases "?line = []")
      case True
      then show ?thesis by simp
    next
      case nonblank: False
      consider (suffix) "length ?ps = 3" | (word) "length ?ps = 5 \<or> length ?ps = 6"
        | (other) "length ?ps \<noteq> 3" "length ?ps \<noteq> 5" "length ?ps \<noteq> 6"
        by blast
      then show ?thesis
      proof cases
        case suffix
        then obtain w where w: "parse_suffix verse ?ps config = Inr w"
          using parse_suffix_Inr by blast
        obtain ws where "parse_body verse rest config (ret @ [w]) = Inr ((ret @ [w]) @ ws, body_rest rest)"
          using Cons.IH by blast
        with noskip nonblank suffix w show ?thesis by (simp add: Let_def)
      next
        case word
        then obtain w where w: "parse_word verse ?ps config = Inr w"
          using parse_word_Inr by blast
        obtain ws where "parse_body verse rest config (ret @ [w]) = Inr ((ret @ [w]) @ ws, body_rest rest)"
          using Cons.IH by blast
        with noskip nonblank word w show ?thesis by (auto simp: Let_def)
      next
        case other
        with noskip nonblank Cons.IH [of ret] show ?thesis by (simp add: Let_def)
      qed
    qed
  qed
qed

lemma split_fields_nonblank: "length (split sep line) \<noteq> 1 \<Longrightarrow> line \<noteq> []"
  by auto

lemma parse_body_suffix_step:
  assumes "\<not> list_ex (\<lambda>skip_char. contains skip_char (strip raw)) skip_chars"
      and "split TAB (strip raw) = [f1, f2, f3]"
  shows "parse_body verse (raw # rest) config ret =
           parse_body verse rest config
             (ret @ [\<lparr>verse_id = verse, form = f1, transliterated_form = f2,
                      fts = Some (split SPACE f3), parts = handle_parts f3 config,
                      word_lemma = None, transliterated_lemma = None, translation = None\<rparr>])"
proof -
  have "strip raw \<noteq> []" using assms(2) by auto
  with assms show ?thesis
    by (simp add: Let_def parse_suffix_fields)
qed

lemma parse_body_word5_step:
  assumes "\<not> list_ex (\<lambda>skip_char. contains skip_char (strip raw)) skip_chars"
      and "split TAB (strip raw) = [f1, f2, f3, f4, f5]"
  shows "parse_body verse (raw # rest) config ret =
           parse_body verse rest config
             (ret @ [\<lparr>verse_id = verse, form = f1, transliterated_form = f2,
                      fts = None, parts = None,
                      word_lemma = Some f3, transliterated_lemma = Some f4, translation = Some f5\<rparr>])"
proof -
  have "strip raw \<noteq> []" using assms(2) by auto
  with assms show ?thesis
    by (simp add: Let_def parse_word_fields5)
qed

lemma parse_body_word6_step:
  assumes "\<not> list_ex (\<lambda>skip_char. contains skip_char (strip raw)) skip_chars"
      and "split TAB (strip raw) = [f1, f2, f3, f4, f5, f6]"
  shows "parse_body verse (raw # rest) config ret =
           parse_body verse rest config
             (ret @ [\<lparr>verse_id = verse, form = f1, transliterated_form = f2,
                      fts = Some (split SPACE f5), parts = handle_parts f5 config,
                      word_lemma = Some f3, transliterated_lemma = Some f4, translation = Some f6\<rparr>])"
proof -
  have "strip raw \<noteq> []" using assms(2) by auto
  with assms show ?thesis
    by (simp add: Let_def parse_word_fields6)
qed

text \<open>The words of the specification, "split on whitespace": the maximal runs of
  characters that are not whitespace, as \<open>str.split()\<close> without a separator gives them.
  \<open>cur\<close> is the run being read.\<close>

fun whitespace_runs :: "ustring \<Rightarrow> ustring \<Rightarrow> ustring list" where
  "whitespace_runs cur [] = (if cur = [] then [] else [cur])"
| "whitespace_runs cur (c # cs) =
     (if isspace c then
        (if cur = [] then whitespace_runs [] cs else cur # whitespace_runs [] cs)
      else whitespace_runs (cur @ [c]) cs)"

definition split_on_whitespace :: "ustring \<Rightarrow> ustring list" where
  "split_on_whitespace s = whitespace_runs [] s"

text \<open>
  C2 (as amended). A line of a verse body that, stripped, holds none of the skip markers
  and splits into exactly three fields at its tabs yields a Word whose \<open>lemma\<close>,
  \<open>transliterated_lemma\<close> and \<open>translation\<close> are absent, and whose tags are the third
  field cut at every single space: two spaces in a row give an empty tag, and no other
  whitespace character separates tags.
\<close>

theorem suffix_line_parsed:
  assumes "\<not> list_ex (\<lambda>skip_char. contains skip_char (strip raw)) skip_chars"
      and "split TAB (strip raw) = [f1, f2, f3]"
  shows "\<exists>w ws r. parse_body verse (raw # rest) config ret = Inr (ret @ w # ws, r)
           \<and> verse_id w = verse \<and> form w = f1 \<and> transliterated_form w = f2
           \<and> fts w = Some (split SPACE f3)
           \<and> word_lemma w = None \<and> transliterated_lemma w = None \<and> translation w = None"
proof -
  let ?w = "\<lparr>verse_id = verse, form = f1, transliterated_form = f2,
             fts = Some (split SPACE f3), parts = handle_parts f3 config,
             word_lemma = None, transliterated_lemma = None, translation = None\<rparr>"
  obtain ws where "parse_body verse rest config (ret @ [?w]) = Inr ((ret @ [?w]) @ ws, body_rest rest)"
    using parse_body_total by blast
  then have "parse_body verse (raw # rest) config ret = Inr (ret @ ?w # ws, body_rest rest)"
    using parse_body_suffix_step [OF assms] by simp
  then show ?thesis by fastforce
qed

text \<open>The theorem at the line \<open>a<TAB>b<TAB>x y\<close>.\<close>

theorem suffix_line_parsed_witness:
  "\<not> list_ex (\<lambda>skip_char. contains skip_char (strip (str ''a'' @ [TAB] @ str ''b'' @ [TAB] @ str ''x y'' @ [10])))
        skip_chars
   \<and> split TAB (strip (str ''a'' @ [TAB] @ str ''b'' @ [TAB] @ str ''x y'' @ [10])) = [str ''a'', str ''b'', str ''x y'']
   \<and> (\<exists>w ws r. parse_body (str ''v'') [str ''a'' @ [TAB] @ str ''b'' @ [TAB] @ str ''x y'' @ [10]] None [] = Inr ([] @ w # ws, r)
           \<and> verse_id w = str ''v'' \<and> form w = str ''a'' \<and> transliterated_form w = str ''b''
           \<and> fts w = Some (split SPACE (str ''x y''))
           \<and> word_lemma w = None \<and> transliterated_lemma w = None \<and> translation w = None)"
proof -
  let ?raw = "str ''a'' @ [TAB] @ str ''b'' @ [TAB] @ str ''x y'' @ [10]"
  have s: "strip ?raw = str ''a'' @ [TAB] @ str ''b'' @ [TAB] @ str ''x y''"
    by (simp add: str_def strip_def isspace_def)
  have h1: "\<not> list_ex (\<lambda>skip_char. contains skip_char (strip ?raw)) skip_chars"
    unfolding s by (simp add: str_def skip_chars_def)
  have h2: "split TAB (strip ?raw) = [str ''a'', str ''b'', str ''x y'']"
    unfolding s by (simp add: str_def)
  from suffix_line_parsed [OF h1 h2, of "str ''v''" "[]" None "[]"] h1 h2
  show ?thesis by blast
qed

text \<open>With two spaces, or a no-break space, between two tags the tags of the Word are not
  the third field split on whitespace.\<close>

theorem suffix_line_whitespace_counterexample:
  "parse_body (str ''v'') [str ''a'' @ [TAB] @ str ''b'' @ [TAB] @ str ''x  y'' @ [10]] None [] =
     Inr ([\<lparr>verse_id = str ''v'', form = str ''a'', transliterated_form = str ''b'',
            fts = Some [str ''x'', [], str ''y''], parts = None,
            word_lemma = None, transliterated_lemma = None, translation = None\<rparr>], [])
   \<and> split_on_whitespace (str ''x  y'') = [str ''x'', str ''y'']
   \<and> parse_body (str ''v'') [str ''a'' @ [TAB] @ str ''b'' @ [TAB] @ str ''x'' @ [160] @ str ''y'' @ [10]] None [] =
     Inr ([\<lparr>verse_id = str ''v'', form = str ''a'', transliterated_form = str ''b'',
            fts = Some [str ''x'' @ [160] @ str ''y''], parts = None,
            word_lemma = None, transliterated_lemma = None, translation = None\<rparr>], [])
   \<and> split_on_whitespace (str ''x'' @ [160] @ str ''y'') = [str ''x'', str ''y'']"
  by (simp add: str_def strip_def isspace_def skip_chars_def split_on_whitespace_def
      parse_suffix_def handle_parts_def)

lemma map_of_foldl_update:
  "map_of (foldl (\<lambda>d k. AList.update k (f k) d) d0 ks) t =
     (if t \<in> set ks then Some (f t) else map_of d0 t)"
  by (induction ks arbitrary: d0) (auto simp: update_conv')

lemma handle_parts_lookup:
  "\<exists>d. handle_parts tagString (Some cfg) = Some d
       \<and> (\<forall>t. map_of d t = (if t \<in> set (split SPACE tagString) then Some (config_get cfg t) else None))"
  by (simp add: handle_parts_def map_of_foldl_update)

lemma map_of_csv_row:
  "map_of (csv_row cfg w) k =
     (case map_of (rev cfg) k of
        Some terms \<Rightarrow> Some (Some (column_value terms w))
      | None \<Rightarrow> map_of (base_row w) k)"
proof (induction cfg rule: rev_induct)
  case Nil
  show ?case by (simp add: csv_row_def)
next
  case (snoc x xs)
  obtain title terms where x: "x = (title, terms)" by (cases x)
  have "csv_row (xs @ [x]) w = AList.update title (Some (column_value terms w)) (csv_row xs w)"
    by (simp add: csv_row_def x)
  with snoc show ?case
    by (simp add: update_conv' x)
qed

lemma map_of_csv_row_base:
  "k \<notin> fst ` set cfg \<Longrightarrow> map_of (csv_row cfg w) k = map_of (base_row w) k"
proof -
  assume "k \<notin> fst ` set cfg"
  then have "map_of (rev cfg) k = None"
    by (simp add: map_of_eq_None_iff)
  then show ?thesis by (simp add: map_of_csv_row)
qed

text \<open>
  C3 (as amended). A line of a verse body that, stripped, holds none of the skip markers
  and splits into six fields at its tabs yields a Word whose tags are present and are the
  fifth field cut at every single space; with five fields the tags are absent and the
  translation is the last field.
\<close>

theorem word_line_parsed:
  assumes "\<not> list_ex (\<lambda>skip_char. contains skip_char (strip raw)) skip_chars"
  shows "(split TAB (strip raw) = [f1, f2, f3, f4, f5, f6] \<longrightarrow>
            (\<exists>w ws r. parse_body verse (raw # rest) config ret = Inr (ret @ w # ws, r)
               \<and> verse_id w = verse \<and> form w = f1 \<and> transliterated_form w = f2
               \<and> word_lemma w = Some f3 \<and> transliterated_lemma w = Some f4
               \<and> fts w = Some (split SPACE f5) \<and> translation w = Some f6))
       \<and> (split TAB (strip raw) = [f1, f2, f3, f4, f5] \<longrightarrow>
            (\<exists>w ws r. parse_body verse (raw # rest) config ret = Inr (ret @ w # ws, r)
               \<and> verse_id w = verse \<and> form w = f1 \<and> transliterated_form w = f2
               \<and> word_lemma w = Some f3 \<and> transliterated_lemma w = Some f4
               \<and> fts w = None \<and> translation w = Some f5))"
proof (intro conjI impI)
  assume six: "split TAB (strip raw) = [f1, f2, f3, f4, f5, f6]"
  let ?w = "\<lparr>verse_id = verse, form = f1, transliterated_form = f2,
             fts = Some (split SPACE f5), parts = handle_parts f5 config,
             word_lemma = Some f3, transliterated_lemma = Some f4, translation = Some f6\<rparr>"
  obtain ws where "parse_body verse rest config (ret @ [?w]) = Inr ((ret @ [?w]) @ ws, body_rest rest)"
    using parse_body_total by blast
  then have "parse_body verse (raw # rest) config ret = Inr (ret @ ?w # ws, body_rest rest)"
    using parse_body_word6_step [OF assms six] by simp
  then show "\<exists>w ws r. parse_body verse (raw # rest) config ret = Inr (ret @ w # ws, r)
               \<and> verse_id w = verse \<and> form w = f1 \<and> transliterated_form w = f2
               \<and> word_lemma w = Some f3 \<and> transliterated_lemma w = Some f4
               \<and> fts w = Some (split SPACE f5) \<and> translation w = Some f6"
    by fastforce
next
  assume five: "split TAB (strip raw) = [f1, f2, f3, f4, f5]"
  let ?w = "\<lparr>verse_id = verse, form = f1, transliterated_form = f2,
             fts = None, parts = None,
             word_lemma = Some f3, transliterated_lemma = Some f4, translation = Some f5\<rparr>"
  obtain ws where "parse_body verse rest config (ret @ [?w]) = Inr ((ret @ [?w]) @ ws, body_rest rest)"
    using parse_body_total by blast
  then have "parse_body verse (raw # rest) config ret = Inr (ret @ ?w # ws, body_rest rest)"
    using parse_body_word5_step [OF assms five] by simp
  then show "\<exists>w ws r. parse_body verse (raw # rest) config ret = Inr (ret @ w # ws, r)
               \<and> verse_id w = verse \<and> form w = f1 \<and> transliterated_form w = f2
               \<and> word_lemma w = Some f3 \<and> transliterated_lemma w = Some f4
               \<and> fts w = None \<and> translation w = Some f5"
    by fastforce
qed

text \<open>A line of six fields and a line of five fields, for the theorem above.\<close>

definition line6 :: ustring where
  "line6 = str ''a'' @ [TAB] @ str ''b'' @ [TAB] @ str ''c'' @ [TAB] @ str ''d'' @ [TAB] @ str ''x y'' @ [TAB] @ str ''e'' @ [10]"

definition line5 :: ustring where
  "line5 = str ''a'' @ [TAB] @ str ''b'' @ [TAB] @ str ''c'' @ [TAB] @ str ''d'' @ [TAB] @ str ''e'' @ [10]"

lemma line6_fields:
  "\<not> list_ex (\<lambda>skip_char. contains skip_char (strip line6)) skip_chars"
  "split TAB (strip line6) = [str ''a'', str ''b'', str ''c'', str ''d'', str ''x y'', str ''e'']"
  by (simp_all add: line6_def str_def strip_def isspace_def skip_chars_def)

lemma line5_fields:
  "\<not> list_ex (\<lambda>skip_char. contains skip_char (strip line5)) skip_chars"
  "split TAB (strip line5) = [str ''a'', str ''b'', str ''c'', str ''d'', str ''e'']"
  by (simp_all add: line5_def str_def strip_def isspace_def skip_chars_def)

theorem word_line_parsed_witness:
  "\<not> list_ex (\<lambda>skip_char. contains skip_char (strip line6)) skip_chars
   \<and> split TAB (strip line6) = [str ''a'', str ''b'', str ''c'', str ''d'', str ''x y'', str ''e'']
   \<and> (\<exists>w ws r. parse_body (str ''v'') [line6] None [] = Inr ([] @ w # ws, r)
               \<and> verse_id w = str ''v'' \<and> form w = str ''a'' \<and> transliterated_form w = str ''b''
               \<and> word_lemma w = Some (str ''c'') \<and> transliterated_lemma w = Some (str ''d'')
               \<and> fts w = Some (split SPACE (str ''x y'')) \<and> translation w = Some (str ''e''))
   \<and> \<not> list_ex (\<lambda>skip_char. contains skip_char (strip line5)) skip_chars
   \<and> split TAB (strip line5) = [str ''a'', str ''b'', str ''c'', str ''d'', str ''e'']
   \<and> (\<exists>w ws r. parse_body (str ''v'') [line5] None [] = Inr ([] @ w # ws, r)
               \<and> verse_id w = str ''v'' \<and> form w = str ''a'' \<and> transliterated_form w = str ''b''
               \<and> word_lemma w = Some (str ''c'') \<and> transliterated_lemma w = Some (str ''d'')
               \<and> fts w = None \<and> translation w = Some (str ''e''))"
  using word_line_parsed [OF line6_fields(1), of "str ''a''" "str ''b''" "str ''c''" "str ''d''" "str ''x y''" "str ''e''" "str ''v''" "[]" None "[]"]
        word_line_parsed [OF line5_fields(1), of "str ''a''" "str ''b''" "str ''c''" "str ''d''" "str ''e''" "[]" "str ''v''" "[]" None "[]"]
        line6_fields line5_fields
  by blast

text \<open>A fifth field with two spaces, or a no-break space, between two tags: the tags
  of the Word are not that field split on whitespace.\<close>

theorem word_line_whitespace_counterexample:
  "parse_body (str ''v'')
     [str ''a'' @ [TAB] @ str ''b'' @ [TAB] @ str ''c'' @ [TAB] @ str ''d'' @ [TAB] @ str ''x  y'' @ [TAB] @ str ''e'' @ [10]]
     None [] =
     Inr ([\<lparr>verse_id = str ''v'', form = str ''a'', transliterated_form = str ''b'',
            fts = Some [str ''x'', [], str ''y''], parts = None,
            word_lemma = Some (str ''c''), transliterated_lemma = Some (str ''d''),
            translation = Some (str ''e'')\<rparr>], [])
   \<and> split_on_whitespace (str ''x  y'') = [str ''x'', str ''y'']
   \<and> parse_body (str ''v'')
     [str ''a'' @ [TAB] @ str ''b'' @ [TAB] @ str ''c'' @ [TAB] @ str ''d'' @ [TAB] @ str ''x'' @ [160] @ str ''y'' @ [TAB] @ str ''e'' @ [10]]
     None [] =
     Inr ([\<lparr>verse_id = str ''v'', form = str ''a'', transliterated_form = str ''b'',
            fts = Some [str ''x'' @ [160] @ str ''y''], parts = None,
            word_lemma = Some (str ''c''), transliterated_lemma = Some (str ''d''),
            translation = Some (str ''e'')\<rparr>], [])
   \<and> split_on_whitespace (str ''x'' @ [160] @ str ''y'') = [str ''x'', str ''y'']"
  by (simp add: str_def strip_def isspace_def skip_chars_def split_on_whitespace_def
      parse_word_def handle_parts_def)

text \<open>
  C5 (as amended). With a configuration, the \<open>parts\<close> of a Word parsed from a suffix line
  or from a word line of six fields has exactly the tags of the Word as keys; a tag that
  is not the name of a category maps to itself, and a tag that is the name of a category
  maps to the terms of that category (\<open>config.get(part, part)\<close>).
\<close>

theorem resolved_parts:
  assumes "\<not> list_ex (\<lambda>skip_char. contains skip_char (strip raw)) skip_chars"
      and "split TAB (strip raw) = [f1, f2, tagString]
           \<or> split TAB (strip raw) = [f1, f2, f3, f4, tagString, f6]"
  shows "\<exists>w ws r d. parse_body verse (raw # rest) (Some cfg) ret = Inr (ret @ w # ws, r)
           \<and> fts w = Some (split SPACE tagString) \<and> parts w = Some d
           \<and> (\<forall>t. map_of d t =
                 (if t \<in> set (split SPACE tagString)
                  then Some (case map_of cfg t of None \<Rightarrow> Tag t | Some terms \<Rightarrow> Terms terms)
                  else None))"
proof -
  obtain d where d: "handle_parts tagString (Some cfg) = Some d"
    and look: "\<forall>t. map_of d t = (if t \<in> set (split SPACE tagString) then Some (config_get cfg t) else None)"
    using handle_parts_lookup by blast
  from assms(2) obtain w where
    step: "parse_body verse (raw # rest) (Some cfg) ret = parse_body verse rest (Some cfg) (ret @ [w])"
    and w: "fts w = Some (split SPACE tagString)" "parts w = Some d"
  proof
    assume "split TAB (strip raw) = [f1, f2, tagString]"
    from parse_body_suffix_step [OF assms(1) this] d that show ?thesis
      by fastforce
  next
    assume "split TAB (strip raw) = [f1, f2, f3, f4, tagString, f6]"
    from parse_body_word6_step [OF assms(1) this] d that show ?thesis
      by fastforce
  qed
  obtain ws where "parse_body verse rest (Some cfg) (ret @ [w]) = Inr ((ret @ [w]) @ ws, body_rest rest)"
    using parse_body_total by blast
  with step have "parse_body verse (raw # rest) (Some cfg) ret = Inr (ret @ w # ws, body_rest rest)"
    by simp
  moreover have "\<forall>t. map_of d t =
                 (if t \<in> set (split SPACE tagString)
                  then Some (case map_of cfg t of None \<Rightarrow> Tag t | Some terms \<Rightarrow> Terms terms)
                  else None)"
    using look by (simp add: config_get_def)
  ultimately show ?thesis using w by blast
qed

definition line_pos :: ustring where
  "line_pos = str ''a'' @ [TAB] @ str ''b'' @ [TAB] @ str ''pos Noun'' @ [10]"

theorem resolved_parts_witness:
  "\<not> list_ex (\<lambda>skip_char. contains skip_char (strip line_pos)) skip_chars
   \<and> split TAB (strip line_pos) = [str ''a'', str ''b'', str ''pos Noun'']
   \<and> (\<exists>w ws r d. parse_body (str ''v'') [line_pos] (Some [(str ''pos'', {str '' noun''})]) []
                     = Inr ([] @ w # ws, r)
           \<and> fts w = Some (split SPACE (str ''pos Noun'')) \<and> parts w = Some d
           \<and> (\<forall>t. map_of d t =
                 (if t \<in> set (split SPACE (str ''pos Noun''))
                  then Some (case map_of [(str ''pos'', {str '' noun''})] t of
                               None \<Rightarrow> Tag t | Some terms \<Rightarrow> Terms terms)
                  else None)))"
proof -
  have h1: "\<not> list_ex (\<lambda>skip_char. contains skip_char (strip line_pos)) skip_chars"
    by (simp add: line_pos_def str_def strip_def isspace_def skip_chars_def)
  have h2: "split TAB (strip line_pos) = [str ''a'', str ''b'', str ''pos Noun'']"
    by (simp add: line_pos_def str_def strip_def isspace_def)
  from resolved_parts [OF h1 disjI1 [OF h2], of "str ''v''" "[]" "[(str ''pos'', {str '' noun''})]" "[]"] h1 h2
  show ?thesis by blast
qed

text \<open>The tag \<open>pos\<close> under a configuration with the category \<open>pos\<close> does not map to
  itself.\<close>

theorem resolved_parts_identity_counterexample:
  "read_config (Some (str ''pos: noun'')) = Some [(str ''pos'', {str '' noun''})]
   \<and> parse_body (str ''v'') [str ''a'' @ [TAB] @ str ''b'' @ [TAB] @ str ''pos Noun'' @ [10]]
        (Some [(str ''pos'', {str '' noun''})]) [] =
     Inr ([\<lparr>verse_id = str ''v'', form = str ''a'', transliterated_form = str ''b'',
            fts = Some [str ''pos'', str ''Noun''],
            parts = Some [(str ''pos'', Terms {str '' noun''}), (str ''Noun'', Tag (str ''Noun''))],
            word_lemma = None, transliterated_lemma = None, translation = None\<rparr>], [])"
  by (simp add: read_config_def str_def strip_def isspace_def skip_chars_def
      parse_suffix_def handle_parts_def config_get_def)


section \<open>Verse identifiers\<close>

lemma body_rest_length: "length (body_rest ls) \<le> length ls"
  by (induction ls) auto

text \<open>The lines that \<open>parse_file\<close> reads as verse identifiers: the first line of the file,
  and the line after the blank line that ends the body of a verse.\<close>

function verse_lines :: "ustring list \<Rightarrow> ustring list" where
  "verse_lines [] = []"
| "verse_lines (l # ls) = l # verse_lines (body_rest ls)"
  by pat_completeness auto
termination
  by (relation "measure length") (auto simp: body_rest_length less_Suc_eq_le)

lemma parse_verse_Cons:
  "parse_verse (l # ls) config =
     (if TAB \<in> set (strip l) then Inl AssertionError
      else parse_body (strip l) ls config [])"
  by (simp add: parse_verse_def)

lemma parse_verse_Nil: "parse_verse [] config = Inr ([], [])"
  by (simp add: parse_verse_def)

lemma parse_file_loop_verse_lines:
  "(list_ex (\<lambda>l. TAB \<in> set (strip l)) (verse_lines ls) \<longrightarrow>
      parse_file_loop ls config ret = Inl AssertionError)
   \<and> (\<not> list_ex (\<lambda>l. TAB \<in> set (strip l)) (verse_lines ls) \<longrightarrow>
      (\<exists>ws. parse_file_loop ls config ret = Inr (ret @ ws)))"
proof (induction ls arbitrary: ret rule: verse_lines.induct)
  case 1
  show ?case
    by (subst parse_file_loop.simps) (simp add: parse_verse_Nil)
next
  case (2 l ls)
  show ?case
  proof (cases "TAB \<in> set (strip l)")
    case True
    then show ?thesis
      by (subst parse_file_loop.simps) (simp add: parse_verse_Cons)
  next
    case False
    obtain ws where ws: "parse_body (strip l) ls config [] = Inr ([] @ ws, body_rest ls)"
      using parse_body_total by blast
    show ?thesis
    proof (cases "body_rest ls = []")
      case True
      with False ws show ?thesis
        by (subst parse_file_loop.simps) (simp add: parse_verse_Cons)
    next
      case rest: False
      have unfold: "parse_file_loop (l # ls) config ret = parse_file_loop (body_rest ls) config (ret @ ws)"
        using False ws rest by (subst parse_file_loop.simps) (simp add: parse_verse_Cons)
      from "2.IH" [of "ret @ ws"] False show ?thesis
        unfolding unfold by auto
    qed
  qed
qed

lemma parse_file_result:
  "parse_file text config =
     (if list_ex (\<lambda>l. TAB \<in> set (strip l)) (verse_lines (readlines text))
      then Inl AssertionError else Inr (projr (parse_file text config)))"
  using parse_file_loop_verse_lines [of "readlines text" config "[]"]
  by (auto simp: parse_file_def)

lemma parse_files_abort:
  assumes "text \<in> set files"
      and "list_ex (\<lambda>l. TAB \<in> set (strip l)) (verse_lines (readlines text))"
  shows "parse_files files config words = Inl AssertionError"
  using assms(1)
proof (induction files arbitrary: words)
  case Nil
  then show ?case by simp
next
  case (Cons f fs)
  show ?case
  proof (cases "list_ex (\<lambda>l. TAB \<in> set (strip l)) (verse_lines (readlines f))")
    case True
    then have "parse_file f config = Inl AssertionError"
      using parse_file_result [of f config] by simp
    then show ?thesis by simp
  next
    case False
    with assms(2) Cons.prems have "text \<in> set fs" by auto
    moreover from False obtain ws where "parse_file f config = Inr ws"
      using parse_file_result [of f config] by simp
    ultimately show ?thesis using Cons.IH by simp
  qed
qed

text \<open>
  C7 (as amended). The identifier line is stripped before the assertion looks at it. When
  a verse-identifier line of some file of the corpus still holds a tab once stripped (a
  tab between two of its other characters), the assertion fails and the whole run aborts
  with \<open>AssertionError\<close>: nothing is written, in either mode.
\<close>

theorem tab_in_verse_identifier_aborts:
  assumes "text \<in> set (rip_files dir)"
      and "list_ex (\<lambda>l. TAB \<in> set (strip l)) (verse_lines (readlines text))"
  shows "main lower dir = Inl AssertionError"
  using parse_files_abort [OF assms] by (simp add: main_def)

text \<open>A file whose second verse identifier is \<open>v<TAB>2\<close>.\<close>

definition tab_corpus :: ustring where
  "tab_corpus = str ''v1'' @ [10] @ str ''a'' @ [TAB] @ str ''b'' @ [TAB] @ str ''c'' @ [10, 10]
                @ str ''v'' @ [TAB] @ str ''2'' @ [10]"

theorem tab_in_verse_identifier_aborts_witness:
  "tab_corpus \<in> set (rip_files \<lparr>config_txt = None, rip_files = [tab_corpus], output_csv = None\<rparr>)
   \<and> verse_lines (readlines tab_corpus) = [str ''v1'' @ [10], str ''v'' @ [TAB] @ str ''2'' @ [10]]
   \<and> list_ex (\<lambda>l. TAB \<in> set (strip l)) (verse_lines (readlines tab_corpus))
   \<and> main (\<lambda>s. s) \<lparr>config_txt = None, rip_files = [tab_corpus], output_csv = None\<rparr> = Inl AssertionError"
proof -
  have h1: "tab_corpus \<in> set (rip_files \<lparr>config_txt = None, rip_files = [tab_corpus], output_csv = None\<rparr>)"
    by simp
  have v: "verse_lines (readlines tab_corpus) = [str ''v1'' @ [10], str ''v'' @ [TAB] @ str ''2'' @ [10]]"
    by (simp add: tab_corpus_def str_def strip_def isspace_def)
  have h2: "list_ex (\<lambda>l. TAB \<in> set (strip l)) (verse_lines (readlines tab_corpus))"
    unfolding v by (simp add: str_def strip_def isspace_def)
  from tab_in_verse_identifier_aborts [OF h1 h2, of "\<lambda>s. s"] h1 v h2
  show ?thesis by blast
qed

text \<open>The identifier line \<open>Gen<TAB>\<close> holds a tab, and the run goes on to write the
  configuration: \<open>strip\<close> has removed the tab.\<close>

theorem tab_at_end_of_identifier_counterexample:
  "verse_lines (readlines (str ''Gen'' @ [TAB, 10])) = [str ''Gen'' @ [TAB, 10]]
   \<and> TAB \<in> set (str ''Gen'' @ [TAB, 10])
   \<and> main (\<lambda>s. s) \<lparr>config_txt = None, rip_files = [str ''Gen'' @ [TAB, 10]], output_csv = None\<rparr> =
       Inr \<lparr>config_txt = Some (write_config (\<lambda>s. s) []),
            rip_files = [str ''Gen'' @ [TAB, 10]], output_csv = None\<rparr>"
proof -
  have "parse_file (str ''Gen'' @ [TAB, 10]) None = Inr []"
    unfolding parse_file_def
    by (subst parse_file_loop.simps) (simp add: parse_verse_def str_def strip_def isspace_def)
  then show ?thesis
    by (simp add: main_def read_config_def) (simp add: str_def)
qed


section \<open>The generated configuration\<close>

text \<open>The tags of a Word, as a set; a Word without tags has none.\<close>

definition raw_tags :: "word \<Rightarrow> ustring set" where
  "raw_tags w = (case fts w of None \<Rightarrow> {} | Some ts \<Rightarrow> set ts)"

text \<open>The values of the built-in vocabularies, the text of the built-in categories, and
  \<open>met_parts\<close> as it is after the loop over the built-in categories.\<close>

definition builtin_values :: "ustring set" where
  "builtin_values = (\<Union>(name, features) \<in> set DEFAULT_PARTS. set features)"

definition default_lines :: ustring where
  "default_lines = fst (write_defaults DEFAULT_PARTS ([], []))"

definition unclaimed :: "(ustring \<Rightarrow> ustring) \<Rightarrow> word list \<Rightarrow> ustring list" where
  "unclaimed lower words =
     snd (write_defaults DEFAULT_PARTS
            ([], sort_key lower (sorted_list_of_set (collect_parts words))))"

lemma collect_parts_foldl:
  "foldl (\<lambda>ps w. case fts w of
                     None \<Rightarrow> ps
                   | Some ts \<Rightarrow> if ts = [] then ps else ps \<union> set ts)
         A words = A \<union> (\<Union>w \<in> set words. raw_tags w)"
  by (induction words arbitrary: A) (auto simp: raw_tags_def split: option.splits)

lemma collect_parts_raw_tags: "collect_parts words = (\<Union>w \<in> set words. raw_tags w)"
  by (simp add: collect_parts_def collect_parts_foldl)

lemma finite_raw_tags [simp]: "finite (raw_tags w)"
  by (simp add: raw_tags_def split: option.splits)

lemma finite_collect_parts [simp]: "finite (collect_parts words)"
  by (simp add: collect_parts_raw_tags)

lemma remove_features_props:
  "distinct met \<Longrightarrow>
     set (remove_features features met) = set met - set features
     \<and> distinct (remove_features features met)"
  unfolding remove_features_def
proof (induction features arbitrary: met)
  case Nil
  then show ?case by simp
next
  case (Cons f fs)
  have "distinct (remove1 f met)" "set (remove1 f met) = set met - {f}"
    using Cons.prems by simp_all
  with Cons.IH [of "remove1 f met"] Cons.IH [of met] Cons.prems show ?case
    by auto
qed

lemma remove_features_sorted:
  "sorted (map key met) \<Longrightarrow> sorted (map key (remove_features features met))"
  unfolding remove_features_def
  by (induction features arbitrary: met) (simp_all add: sorted_map_remove1)

lemma write_defaults_fst:
  "fst (write_defaults defaults (out, met)) =
     out @ fst (write_defaults defaults ([], []))"
proof (induction defaults arbitrary: out met rule: rev_induct)
  case Nil
  show ?case by (simp add: write_defaults_def)
next
  case (snoc d ds)
  obtain name features where d: "d = (name, features)" by (cases d)
  have step: "write_defaults (ds @ [d]) st =
        (fst (write_defaults ds st) @ name @ str '': '' @ join (str '', '') features @ [10],
         remove_features features (snd (write_defaults ds st)))" for st
    by (simp add: write_defaults_def d split: prod.splits)
  show ?case
    using snoc [of out met] by (simp add: step)
qed

lemma write_defaults_snd:
  "distinct met \<Longrightarrow>
     set (snd (write_defaults defaults (out, met))) =
       set met - (\<Union>(name, features) \<in> set defaults. set features)
     \<and> distinct (snd (write_defaults defaults (out, met)))
     \<and> (sorted (map key met) \<longrightarrow> sorted (map key (snd (write_defaults defaults (out, met)))))"
proof (induction defaults rule: rev_induct)
  case Nil
  then show ?case by (simp add: write_defaults_def)
next
  case (snoc d ds)
  obtain name features where d: "d = (name, features)" by (cases d)
  have step: "snd (write_defaults (ds @ [d]) st) =
         remove_features features (snd (write_defaults ds st))" for st
    by (simp add: write_defaults_def d split: prod.splits)
  from snoc show ?case
    unfolding step using remove_features_props [of "snd (write_defaults ds (out, met))" features]
      remove_features_sorted [of key "snd (write_defaults ds (out, met))" features]
    by (auto simp: d)
qed

lemma write_config_unclaimed:
  "write_config lower words =
     default_lines @
       (if unclaimed lower words = [] then []
        else str ''other: '' @ join (str '', '') (unclaimed lower words))"
proof -
  let ?met = "sort_key lower (sorted_list_of_set (collect_parts words))"
  have "write_defaults DEFAULT_PARTS ([], ?met) =
          (fst (write_defaults DEFAULT_PARTS ([], ?met)), unclaimed lower words)"
    by (simp add: unclaimed_def)
  moreover have "fst (write_defaults DEFAULT_PARTS ([], ?met)) = default_lines"
    using write_defaults_fst [of DEFAULT_PARTS "[]" ?met] by (simp add: default_lines_def)
  ultimately show ?thesis
    by (simp add: write_config_def Let_def)
qed

lemma unclaimed_props:
  "set (unclaimed lower words) = collect_parts words - builtin_values"
  "distinct (unclaimed lower words)"
  "sorted (map lower (unclaimed lower words))"
proof -
  let ?met = "sort_key lower (sorted_list_of_set (collect_parts words))"
  have d: "distinct ?met" by simp
  have s: "sorted (map lower ?met)" by simp
  have m: "set ?met = collect_parts words" by simp
  from write_defaults_snd [OF d, of DEFAULT_PARTS "[]" lower] s m
  show "set (unclaimed lower words) = collect_parts words - builtin_values"
    "distinct (unclaimed lower words)"
    "sorted (map lower (unclaimed lower words))"
    by (simp_all add: unclaimed_def builtin_values_def)
qed

lemma Hiphil_not_builtin: "str ''Hiphil'' \<notin> builtin_values"
  by (simp add: builtin_values_def DEFAULT_PARTS_def str_def)

text \<open>
  C9. In config-generation mode the text written is the lines of the built-in categories,
  followed by the line \<open>other:\<close> with the comma-joined list \<open>unclaimed\<close> when that list is
  not empty, and by nothing otherwise. The values of \<open>unclaimed\<close> are exactly the tags
  seen in the corpus that are in no built-in vocabulary, each once, in the order of their
  lower-case forms; the list is empty exactly when every tag seen is in a built-in
  vocabulary. \<open>Hiphil\<close> is in no built-in vocabulary, so it is on the line when it is
  seen.
\<close>

theorem other_line:
  "write_config lower words =
     default_lines @
       (if unclaimed lower words = [] then []
        else str ''other: '' @ join (str '', '') (unclaimed lower words))
   \<and> set (unclaimed lower words) = (\<Union>w \<in> set words. raw_tags w) - builtin_values
   \<and> distinct (unclaimed lower words)
   \<and> sorted (map lower (unclaimed lower words))
   \<and> (unclaimed lower words = []) = ((\<Union>w \<in> set words. raw_tags w) \<subseteq> builtin_values)
   \<and> str ''Hiphil'' \<notin> builtin_values"
proof -
  have "(unclaimed lower words = []) = (set (unclaimed lower words) = {})"
    by simp
  also have "\<dots> = ((\<Union>w \<in> set words. raw_tags w) \<subseteq> builtin_values)"
    unfolding unclaimed_props(1) collect_parts_raw_tags by blast
  finally show ?thesis
    using write_config_unclaimed [of lower words] unclaimed_props [of lower words]
      Hiphil_not_builtin
    by (simp add: collect_parts_raw_tags)
qed


section \<open>The category columns\<close>

text \<open>The value of a column read as a set of comma-separated tokens; the empty string
  holds no token.\<close>

definition tokens_of :: "ustring \<Rightarrow> ustring set" where
  "tokens_of v = (if v = [] then {} else set (split COMMA v))"

text \<open>A configuration that \<open>read_config\<close> returns has each category once, and its terms
  are finitely many strings without a comma.\<close>

definition terms_ok :: "ustring set \<Rightarrow> bool" where
  "terms_ok terms \<longleftrightarrow> finite terms \<and> COMMA \<notin> \<Union> (set ` terms)"

lemma terms_ok_split: "terms_ok (set (split COMMA s))"
  using split_pieces_free [of _ COMMA s]
  by (auto simp: terms_ok_def)

lemma terms_okD: "terms_ok terms \<Longrightarrow> t \<in> terms \<Longrightarrow> COMMA \<notin> set t"
  by (auto simp: terms_ok_def)

lemma config_of_lines_acc_ok:
  assumes "distinct (map fst ret)" and "\<And>k terms. map_of ret k = Some terms \<Longrightarrow> terms_ok terms"
  shows "distinct (map fst (foldl (\<lambda>ret line.
              AList.update (strip (split COLON line ! 0)) (set (split COMMA (split COLON line ! 1))) ret)
           ret ls))
       \<and> (\<forall>k terms. map_of (foldl (\<lambda>ret line.
              AList.update (strip (split COLON line ! 0)) (set (split COMMA (split COLON line ! 1))) ret)
           ret ls) k = Some terms \<longrightarrow> terms_ok terms)"
  using assms
proof (induction ls arbitrary: ret)
  case Nil
  then show ?case by simp
next
  case (Cons line ls)
  let ?ret = "AList.update (strip (split COLON line ! 0)) (set (split COMMA (split COLON line ! 1))) ret"
  have "distinct (map fst ?ret)"
    using Cons.prems(1) by (rule distinct_update)
  moreover have "terms_ok terms" if "map_of ?ret k = Some terms" for k terms
    using that Cons.prems(2) [of k terms] terms_ok_split
    by (auto simp: update_conv' split: if_splits)
  ultimately show ?case
    using Cons.IH [of ?ret] by simp
qed

lemma read_config_ok:
  assumes "read_config configfile = Some cfg"
  shows "distinct (map fst cfg)"
    and "(title, terms) \<in> set cfg \<Longrightarrow> map_of cfg title = Some terms"
    and "(title, terms) \<in> set cfg \<Longrightarrow> terms_ok terms"
proof -
  from assms obtain content where "configfile = Some content"
    by (cases configfile) (simp_all add: read_config_def)
  with assms have cfg: "cfg = config_of_lines (readlines content)"
    by (simp add: read_config_def read_config_lines_acc config_of_lines_def split: if_splits)
  have ok: "distinct (map fst cfg) \<and> (\<forall>k terms. map_of cfg k = Some terms \<longrightarrow> terms_ok terms)"
    unfolding cfg config_of_lines_def
    by (rule config_of_lines_acc_ok) simp_all
  then show "distinct (map fst cfg)" by simp
  with ok show "map_of cfg title = Some terms" if "(title, terms) \<in> set cfg"
    using that by simp
  with ok show "terms_ok terms" if "(title, terms) \<in> set cfg"
    using that by blast
qed

lemma tokens_of_join:
  assumes "terms_ok m"
  shows "tokens_of (if m = {} then [] else join [COMMA] (sorted_list_of_set m)) \<subseteq> m"
proof (cases "m = {} \<or> join [COMMA] (sorted_list_of_set m) = []")
  case True
  then show ?thesis by (auto simp: tokens_of_def)
next
  case False
  from assms have fin: "finite m" by (simp add: terms_ok_def)
  with False have ne: "sorted_list_of_set m \<noteq> []" by simp
  have "split COMMA (join [COMMA] (sorted_list_of_set m)) = sorted_list_of_set m"
    using ne assms fin by (intro split_join) (auto dest: terms_okD)
  with False fin show ?thesis by (simp add: tokens_of_def)
qed

text \<open>The keys of \<open>parts\<close> are the tags of the Word, for every Word that the parser
  builds.\<close>

definition parts_match :: "word \<Rightarrow> bool" where
  "parts_match w = (case parts w of None \<Rightarrow> True | Some d \<Rightarrow> fst ` set d = raw_tags w)"

lemma foldl_update_keys:
  "fst ` set (foldl (\<lambda>d k. AList.update k (f k) d) d0 ks) = set ks \<union> fst ` set d0"
  by (induction ks arbitrary: d0) (auto simp: dom_update)

lemma handle_parts_keys:
  assumes "handle_parts tagString config = Some d"
  shows "fst ` set d = set (split SPACE tagString)"
proof (cases config)
  case None
  with assms show ?thesis by (simp add: handle_parts_def)
next
  case (Some cfg)
  with assms have "d = foldl (\<lambda>d part. AList.update part (config_get cfg part) d) [] (split SPACE tagString)"
    by (simp add: handle_parts_def)
  then show ?thesis by (simp add: foldl_update_keys)
qed

lemma handle_parts_match:
  "parts_match \<lparr>verse_id = v, form = f1, transliterated_form = f2,
                fts = Some (split SPACE tagString), parts = handle_parts tagString config,
                word_lemma = f3, transliterated_lemma = f4, translation = f5\<rparr>"
  by (cases "handle_parts tagString config")
     (simp_all add: parts_match_def raw_tags_def handle_parts_keys)

lemma parse_suffix_match: "parse_suffix verse ps config = Inr w \<Longrightarrow> parts_match w"
  using handle_parts_match
  by (cases "length ps < 3") (auto simp: parse_suffix_def)

lemma parse_word_match: "parse_word verse ps config = Inr w \<Longrightarrow> parts_match w"
  using handle_parts_match
  by (cases "length ps < 4"; cases "length ps = 6")
     (auto simp: parse_word_def parts_match_def)

lemma parse_body_match:
  "list_all parts_match ret \<Longrightarrow> parse_body verse ls config ret = Inr (ws, r) \<Longrightarrow>
     list_all parts_match ws"
proof (induction ls arbitrary: ret)
  case Nil
  then show ?case by simp
next
  case (Cons raw rest)
  have same: "list_all parts_match ws"
    if "parse_body verse rest config ret = Inr (ws, r)"
    using Cons.IH [OF Cons.prems(1) that] .
  have more: "list_all parts_match ws"
    if "parse_body verse rest config (ret @ [w]) = Inr (ws, r)" "parts_match w" for w
    using Cons.IH [OF _ that(1)] Cons.prems(1) that(2) by simp
  from Cons.prems show ?case
    by (auto simp: Let_def split: if_splits sum.splits
        intro: same more [OF _ parse_suffix_match] more [OF _ parse_word_match])
qed

lemma parse_verse_match:
  "parse_verse open_file config = Inr (ws, r) \<Longrightarrow> list_all parts_match ws"
  using parse_body_match [of "[]"]
  by (auto simp: parse_verse_def Let_def split: if_splits)

lemma parse_file_loop_match:
  "list_all parts_match ret \<Longrightarrow> parse_file_loop ls config ret = Inr ws \<Longrightarrow>
     list_all parts_match ws"
proof (induction ls config ret rule: parse_file_loop.induct)
  case (1 open_file config ret)
  from "1.prems"(2) show ?case
    apply (subst (asm) parse_file_loop.simps)
    using "1.IH" "1.prems"(1) parse_verse_match
    by (auto split: sum.splits if_splits)
qed

lemma parse_files_match:
  "list_all parts_match words \<Longrightarrow> parse_files files config words = Inr ws \<Longrightarrow>
     list_all parts_match ws"
proof (induction files arbitrary: words)
  case Nil
  then show ?case by simp
next
  case (Cons f fs)
  from Cons.prems(2) obtain ws' where f: "parse_file f config = Inr ws'"
    and rest: "parse_files fs config (words @ ws') = Inr ws"
    by (auto split: sum.splits)
  from f have "list_all parts_match ws'"
    using parse_file_loop_match [of "[]"] by (simp add: parse_file_def)
  with Cons.prems(1) Cons.IH [OF _ rest] show ?case by simp
qed

lemma column_value_tokens:
  assumes "terms_ok terms" and "parts_match w"
  shows "tokens_of (column_value terms w) \<subseteq> terms \<inter> raw_tags w"
    and "terms \<inter> raw_tags w = {} \<Longrightarrow> column_value terms w = []"
proof -
  show "tokens_of (column_value terms w) \<subseteq> terms \<inter> raw_tags w"
  proof (cases "met_terms terms w")
    case None
    then show ?thesis by (simp add: column_value_def tokens_of_def)
  next
    case (Some m)
    then have m: "m = terms \<inter> raw_tags w"
      using assms(2)
      by (auto simp: met_terms_def parts_match_def split: option.splits if_splits)
    have "terms_ok m"
      using assms(1) unfolding m terms_ok_def by auto
    then have "tokens_of (if m = {} then [] else join [COMMA] (sorted_list_of_set m)) \<subseteq> m"
      by (rule tokens_of_join)
    moreover have "column_value terms w = (if m = {} then [] else join [COMMA] (sorted_list_of_set m))"
      using Some by (simp add: column_value_def)
    ultimately show ?thesis unfolding m by simp
  qed
  show "column_value terms w = []" if "terms \<inter> raw_tags w = {}"
    using that assms(2)
    by (auto simp: column_value_def met_terms_def parts_match_def split: option.splits)
qed

lemma main_table_mode:
  assumes "read_config (config_txt dir) = Some cfg" and "main lower dir = Inr dir'"
  shows "\<exists>words. parse_files (rip_files dir) (Some cfg) [] = Inr words \<and> words \<noteq> []
           \<and> dir' = dir\<lparr>output_csv := Some (map fst (csv_row cfg (last words)), map (csv_row cfg) words)\<rparr>"
  using assms
  by (auto simp: main_def write_csv_def Let_def split: sum.splits if_splits)

text \<open>
  C6. In table mode the rows written are those of the Words parsed from the corpus, and in
  each row the column of each category of the configuration holds a string whose
  comma-separated tokens are tags of the Word and terms of the category; when no term of
  the category is a tag of the Word the column holds the empty string, and never
  \<open>None\<close>.
\<close>

theorem category_columns:
  assumes "read_config (config_txt dir) = Some cfg" and "main lower dir = Inr dir'"
  shows "\<exists>words header.
           parse_files (rip_files dir) (Some cfg) [] = Inr words
           \<and> output_csv dir' = Some (header, map (csv_row cfg) words)
           \<and> (\<forall>w \<in> set words. \<forall>(title, terms) \<in> set cfg.
                \<exists>v. map_of (csv_row cfg w) title = Some (Some v)
                   \<and> tokens_of v \<subseteq> raw_tags w \<and> tokens_of v \<subseteq> terms
                   \<and> (terms \<inter> raw_tags w = {} \<longrightarrow> v = []))"
proof -
  from main_table_mode [OF assms] obtain words where
    words: "parse_files (rip_files dir) (Some cfg) [] = Inr words"
    and out: "output_csv dir' = Some (map fst (csv_row cfg (last words)), map (csv_row cfg) words)"
    by auto
  have match: "parts_match w" if "w \<in> set words" for w
    using parse_files_match [OF _ words] that by (simp add: list_all_iff)
  have col: "\<exists>v. map_of (csv_row cfg w) title = Some (Some v)
                   \<and> tokens_of v \<subseteq> raw_tags w \<and> tokens_of v \<subseteq> terms
                   \<and> (terms \<inter> raw_tags w = {} \<longrightarrow> v = [])"
    if w: "w \<in> set words" and t: "(title, terms) \<in> set cfg" for w title terms
  proof -
    from read_config_ok [OF assms(1)] t have look: "map_of cfg title = Some terms"
      and ok: "terms_ok terms" and "distinct (map fst cfg)" by simp_all
    then have "map_of (rev cfg) = map_of cfg"
      by (simp add: map_of_inject_set distinct_rev rev_map [symmetric])
    then have "map_of (rev cfg) title = Some terms"
      using look by simp
    then have "map_of (csv_row cfg w) title = Some (Some (column_value terms w))"
      by (simp add: map_of_csv_row)
    with column_value_tokens [OF ok match [OF w]] show ?thesis by auto
  qed
  from words out col show ?thesis by blast
qed

text \<open>A source directory with the configuration \<open>pos:Noun,Verb\<close> and one suffix line with
  the tags \<open>Noun\<close> and \<open>x\<close>; the Word parsed and the row written.\<close>

definition table_dir :: source_dir where
  "table_dir = \<lparr>config_txt = Some (str ''pos:Noun,Verb''),
                rip_files = [str ''v'' @ [10] @ str ''a'' @ [TAB] @ str ''b'' @ [TAB] @ str ''Noun x'' @ [10]],
                output_csv = None\<rparr>"

definition table_word :: word where
  "table_word = \<lparr>verse_id = str ''v'', form = str ''a'', transliterated_form = str ''b'',
                  fts = Some [str ''Noun'', str ''x''],
                  parts = Some [(str ''Noun'', Tag (str ''Noun'')), (str ''x'', Tag (str ''x''))],
                  word_lemma = None, transliterated_lemma = None, translation = None\<rparr>"

definition table_row :: row where
  "table_row = [(str ''verse_id'', Some (str ''v'')), (str ''form'', Some (str ''a'')),
                (str ''transliterated_form'', Some (str ''b'')), (str ''lemma'', None),
                (str ''transliterated_lemma'', None), (str ''fts'', Some (str ''[Noun, x]'')),
                (str ''translation'', None), (str ''pos'', Some (str ''Noun''))]"

lemma table_dir_config:
  "read_config (config_txt table_dir) = Some [(str ''pos'', {str ''Noun'', str ''Verb''})]"
  by (simp add: table_dir_def read_config_def str_def strip_def isspace_def)

lemma table_dir_words:
  "parse_files (rip_files table_dir) (Some [(str ''pos'', {str ''Noun'', str ''Verb''})]) [] = Inr [table_word]"
proof -
  have "parse_file (str ''v'' @ [10] @ str ''a'' @ [TAB] @ str ''b'' @ [TAB] @ str ''Noun x'' @ [10])
          (Some [(str ''pos'', {str ''Noun'', str ''Verb''})]) = Inr [table_word]"
    unfolding parse_file_def
    by (subst parse_file_loop.simps)
       (simp add: parse_verse_def str_def strip_def isspace_def skip_chars_def parse_suffix_def
          handle_parts_def config_get_def table_word_def)
  then show ?thesis by (simp add: table_dir_def)
qed

lemma table_row_value:
  "csv_row [(str ''pos'', {str ''Noun'', str ''Verb''})] table_word = table_row"
  by (simp add: csv_row_def base_row_def column_value_def met_terms_def table_word_def
      table_row_def str_def)

lemma table_dir_main:
  "main (\<lambda>s. s) table_dir = Inr (table_dir\<lparr>output_csv := Some (map fst table_row, [table_row])\<rparr>)"
  by (simp add: main_def table_dir_config table_dir_words write_csv_def table_row_value)

theorem category_columns_witness:
  "read_config (config_txt table_dir) = Some [(str ''pos'', {str ''Noun'', str ''Verb''})]
   \<and> main (\<lambda>s. s) table_dir = Inr (table_dir\<lparr>output_csv := Some (map fst table_row, [table_row])\<rparr>)
   \<and> map_of table_row (str ''pos'') = Some (Some (str ''Noun''))
   \<and> (\<exists>words header.
           parse_files (rip_files table_dir) (Some [(str ''pos'', {str ''Noun'', str ''Verb''})]) [] = Inr words
           \<and> output_csv (table_dir\<lparr>output_csv := Some (map fst table_row, [table_row])\<rparr>) =
               Some (header, map (csv_row [(str ''pos'', {str ''Noun'', str ''Verb''})]) words)
           \<and> (\<forall>w \<in> set words. \<forall>(title, terms) \<in> set [(str ''pos'', {str ''Noun'', str ''Verb''})].
                \<exists>v. map_of (csv_row [(str ''pos'', {str ''Noun'', str ''Verb''})] w) title = Some (Some v)
                   \<and> tokens_of v \<subseteq> raw_tags w \<and> tokens_of v \<subseteq> terms
                   \<and> (terms \<inter> raw_tags w = {} \<longrightarrow> v = [])))"
proof -
  have "map_of table_row (str ''pos'') = Some (Some (str ''Noun''))"
    by (simp add: table_row_def str_def)
  with category_columns [OF table_dir_config table_dir_main] table_dir_config table_dir_main
  show ?thesis by blast
qed

section \<open>Both runs\<close>

text \<open>Without a configuration the parser builds the same Words, less their \<open>parts\<close>.\<close>

definition erase_parts :: "word \<Rightarrow> word" where
  "erase_parts w = w\<lparr>parts := None\<rparr>"

text \<open>A function applied to the result of a run that did not raise.\<close>

fun map_result :: "('a \<Rightarrow> 'b) \<Rightarrow> error + 'a \<Rightarrow> error + 'b" where
  "map_result f (Inl e) = Inl e"
| "map_result f (Inr x) = Inr (f x)"

lemma parse_suffix_None:
  "parse_suffix verse ps None = map_result erase_parts (parse_suffix verse ps config)"
  by (simp add: parse_suffix_def erase_parts_def handle_parts_def)

lemma parse_word_None:
  "parse_word verse ps None = map_result erase_parts (parse_word verse ps config)"
  by (simp add: parse_word_def erase_parts_def handle_parts_def)

lemma parse_body_None:
  "parse_body verse ls None (map erase_parts ret) =
     map_result (\<lambda>(ws, r). (map erase_parts ws, r)) (parse_body verse ls config ret)"
proof (induction ls arbitrary: ret)
  case Nil
  show ?case by simp
next
  case (Cons raw rest)
  have more: "parse_body verse rest None (map erase_parts ret @ [erase_parts w]) =
     map_result (\<lambda>(ws, r). (map erase_parts ws, r)) (parse_body verse rest config (ret @ [w]))" for w
  proof -
    have "map erase_parts ret @ [erase_parts w] = map erase_parts (ret @ [w])" by simp
    then show ?thesis using Cons.IH [of "ret @ [w]"] by (simp only:)
  qed
  have suffix: "parse_suffix verse ps None = Inl e" if "parse_suffix verse ps config = Inl e" for ps e
    using that parse_suffix_None [of verse ps config] by simp
  have suffix': "parse_suffix verse ps None = Inr (erase_parts w)" if "parse_suffix verse ps config = Inr w" for ps w
    using that parse_suffix_None [of verse ps config] by simp
  have word: "parse_word verse ps None = Inl e" if "parse_word verse ps config = Inl e" for ps e
    using that parse_word_None [of verse ps config] by simp
  have word': "parse_word verse ps None = Inr (erase_parts w)" if "parse_word verse ps config = Inr w" for ps w
    using that parse_word_None [of verse ps config] by simp
  show ?case
    by (cases "parse_suffix verse (split TAB (strip raw)) config";
        cases "parse_word verse (split TAB (strip raw)) config")
       (simp_all add: Let_def Cons.IH [of ret] more suffix suffix' word word')
qed

lemma parse_verse_None:
  "parse_verse open_file None =
     map_result (\<lambda>(ws, r). (map erase_parts ws, r)) (parse_verse open_file config)"
  using parse_body_None [of _ _ "[]" config]
  by (simp add: parse_verse_def Let_def)

lemma parse_file_loop_None:
  "parse_file_loop ls None (map erase_parts ret) =
     map_result (map erase_parts) (parse_file_loop ls config ret)"
proof (induction "length ls" arbitrary: ls ret rule: less_induct)
  case less
  show ?case
  proof (cases "parse_verse ls config")
    case (Inl e)
    then have n: "parse_verse ls None = Inl e"
      using parse_verse_None [of ls config] by simp
    have "parse_file_loop ls config ret = Inl e"
      using Inl by (subst parse_file_loop.simps) simp
    moreover have "parse_file_loop ls None (map erase_parts ret) = Inl e"
      using n by (subst parse_file_loop.simps) simp
    ultimately show ?thesis by simp
  next
    case (Inr p)
    obtain verse rest where p: "p = (verse, rest)" by (cases p)
    from Inr p have n: "parse_verse ls None = Inr (map erase_parts verse, rest)"
      using parse_verse_None [of ls config] by simp
    show ?thesis
    proof (cases "rest = []")
      case True
      have "parse_file_loop ls config ret = Inr (ret @ verse)"
        using Inr p True by (subst parse_file_loop.simps) simp
      moreover have "parse_file_loop ls None (map erase_parts ret) = Inr (map erase_parts (ret @ verse))"
        using n True by (subst parse_file_loop.simps) simp
      ultimately show ?thesis by simp
    next
      case False
      have "parse_file_loop ls config ret = parse_file_loop rest config (ret @ verse)"
        using Inr p False by (subst parse_file_loop.simps) simp
      moreover have "parse_file_loop ls None (map erase_parts ret) =
                       parse_file_loop rest None (map erase_parts (ret @ verse))"
        using n False by (subst parse_file_loop.simps) simp
      moreover have "length rest < length ls"
        using Inr p False parse_verse_rest_length by blast
      ultimately show ?thesis
        using less [of rest "ret @ verse"] by (simp only:)
    qed
  qed
qed

lemma parse_file_None:
  "parse_file f None = map_result (map erase_parts) (parse_file f config)"
  using parse_file_loop_None [of _ "[]" config] by (simp add: parse_file_def)

lemma parse_files_None:
  "parse_files files None (map erase_parts words) =
     map_result (map erase_parts) (parse_files files config words)"
proof (induction files arbitrary: words)
  case Nil
  show ?case by simp
next
  case (Cons f fs)
  show ?case
    using Cons.IH [of "words @ projr (parse_file f config)"]
    by (cases "parse_file f config") (simp_all add: parse_file_None [of f config])
qed

lemma parse_files_with_config:
  assumes "parse_files files None [] = Inr words"
  shows "\<exists>words'. parse_files files config [] = Inr words' \<and> words = map erase_parts words'"
  using assms parse_files_None [of files "[]" config]
  by (cases "parse_files files config []") simp_all

lemma default_lines_value:
  "default_lines =
     str ''verse: Particle, Verb, Noun, Suffix, Pronoun, Adjective, Paragraph, Noun'' @ [10] @
     str ''pos: noun, verb, particle, adjective'' @ [10] @
     str ''number: singular, plural'' @ [10] @
     str ''gender: masculine, feminine'' @ [10] @
     str ''tense: perfect, imperfect'' @ [10] @
     str ''person: first, second, third'' @ [10] @
     str ''binyan: qal, piel, hifil, nifal, pual, hitpael, hofal, passiveqal, polel, hitpolel'' @ [10]"
  by (simp add: default_lines_def write_defaults_def DEFAULT_PARTS_def remove_features_def str_def)

lemma default_lines_read:
  "list_all (\<lambda>line. count_list line COLON = 1) (readlines default_lines)"
  "last default_lines = 10" "default_lines \<noteq> []"
  unfolding default_lines_value by (simp_all add: str_def)

subsection \<open>No tag holds a line feed\<close>

lemma readlines_butlast: "l \<in> set (readlines s) \<Longrightarrow> 10 \<notin> set (butlast l)"
proof (induction s arbitrary: l)
  case Nil
  then show ?case by simp
next
  case (Cons c cs)
  show ?case
  proof (cases "c = 10")
    case True
    with Cons show ?thesis by auto
  next
    case False
    show ?thesis
    proof (cases "readlines cs")
      case Nil
      with False Cons.prems show ?thesis by simp
    next
      case (Cons l0 ls)
      with False Cons.prems have "l = c # l0 \<or> l \<in> set ls" by simp
      then show ?thesis
      proof
        assume "l = c # l0"
        moreover have "10 \<notin> set (butlast l0)"
          using Cons.IH [of l0] Cons by simp
        ultimately show ?thesis using False by simp
      next
        assume "l \<in> set ls"
        then show ?thesis using Cons.IH [of l] Cons by simp
      qed
    qed
  qed
qed

lemma isspace_10 [simp]: "isspace 10"
  by (simp add: isspace_def)

lemma strip_line_feed_free:
  assumes "10 \<notin> set (butlast l)"
  shows "10 \<notin> set (strip l)"
proof -
  let ?m = "dropWhile isspace l"
  have m: "10 \<notin> set (butlast ?m)"
  proof (cases "?m = []")
    case True
    show ?thesis unfolding True by simp
  next
    case False
    have "l = takeWhile isspace l @ ?m" by simp
    then have "butlast l = takeWhile isspace l @ butlast ?m"
      using False by (metis butlast_append)
    with assms show ?thesis by (metis Un_iff set_append)
  qed
  have "10 \<notin> set (dropWhile isspace (rev ?m))"
  proof (cases ?m rule: rev_cases)
    case Nil
    show ?thesis unfolding Nil by simp
  next
    case (snoc ys y)
    with m have ys: "10 \<notin> set ys" by simp
    show ?thesis
    proof (cases "isspace y")
      case True
      then have "set (dropWhile isspace (rev ?m)) \<subseteq> set ys"
        using snoc by (auto dest: set_dropWhileD)
      with ys show ?thesis by blast
    next
      case False
      then have "y \<noteq> 10" by auto
      with False ys snoc show ?thesis by simp
    qed
  qed
  then show ?thesis by (simp add: strip_def)
qed

lemma split_pieces_subset: "p \<in> set (split sep s) \<Longrightarrow> set p \<subseteq> set s"
proof (induction s arbitrary: p)
  case Nil
  then show ?case by simp
next
  case (Cons c cs)
  show ?case
  proof (cases "c = sep")
    case True
    with Cons show ?thesis by auto
  next
    case False
    obtain q qs where q: "split sep cs = q # qs"
      by (cases "split sep cs") simp_all
    with False Cons.prems have "p = c # q \<or> p \<in> set qs" by simp
    then show ?thesis
    proof
      assume "p = c # q"
      moreover have "set q \<subseteq> set cs" using Cons.IH [of q] q by simp
      ultimately show ?thesis by auto
    next
      assume "p \<in> set qs"
      then have "set p \<subseteq> set cs" using Cons.IH [of p] q by simp
      then show ?thesis by auto
    qed
  qed
qed

text \<open>No tag of the Word holds a line feed.\<close>

definition line_feed_free :: "word \<Rightarrow> bool" where
  "line_feed_free w \<longleftrightarrow> 10 \<notin> \<Union> (set ` raw_tags w)"

lemma tags_line_feed_free:
  assumes "10 \<notin> set line" and "i < length (split TAB line)"
  shows "10 \<notin> \<Union> (set ` set (split SPACE (split TAB line ! i)))"
proof -
  have "split TAB line ! i \<in> set (split TAB line)"
    using assms(2) by simp
  then have "set (split TAB line ! i) \<subseteq> set line"
    by (rule split_pieces_subset)
  moreover have "set t \<subseteq> set (split TAB line ! i)" if "t \<in> set (split SPACE (split TAB line ! i))" for t
    using that by (rule split_pieces_subset)
  ultimately show ?thesis using assms(1) by blast
qed

lemma parse_suffix_line_feed_free:
  "10 \<notin> set line \<Longrightarrow> parse_suffix verse (split TAB line) config = Inr w \<Longrightarrow> line_feed_free w"
  using tags_line_feed_free [of line 2]
  by (cases "length (split TAB line) < 3")
     (auto simp: parse_suffix_def line_feed_free_def raw_tags_def)

lemma parse_word_line_feed_free:
  "10 \<notin> set line \<Longrightarrow> parse_word verse (split TAB line) config = Inr w \<Longrightarrow> line_feed_free w"
  using tags_line_feed_free [of line 4]
  by (cases "length (split TAB line) < 4"; cases "length (split TAB line) = 6")
     (auto simp: parse_word_def line_feed_free_def raw_tags_def)

lemma parse_body_line_feed_free:
  "list_all (\<lambda>l. 10 \<notin> set (butlast l)) ls \<Longrightarrow> list_all line_feed_free ret \<Longrightarrow>
     parse_body verse ls config ret = Inr (ws, r) \<Longrightarrow> list_all line_feed_free ws"
proof (induction ls arbitrary: ret)
  case Nil
  then show ?case by simp
next
  case (Cons raw rest)
  from Cons.prems(1) have raw: "10 \<notin> set (strip raw)" and rest: "list_all (\<lambda>l. 10 \<notin> set (butlast l)) rest"
    by (simp_all add: strip_line_feed_free)
  have same: "list_all line_feed_free ws"
    if "parse_body verse rest config ret = Inr (ws, r)"
    using Cons.IH [OF rest Cons.prems(2) that] .
  have more: "list_all line_feed_free ws"
    if "parse_body verse rest config (ret @ [w]) = Inr (ws, r)" "line_feed_free w" for w
    using Cons.IH [OF rest _ that(1)] Cons.prems(2) that(2) by simp
  from Cons.prems(2,3) show ?case
    by (auto simp: Let_def split: if_splits sum.splits
        intro: same more [OF _ parse_suffix_line_feed_free [OF raw]]
               more [OF _ parse_word_line_feed_free [OF raw]])
qed

lemma body_rest_subset: "set (body_rest ls) \<subseteq> set ls"
  by (induction ls) auto

lemma parse_verse_rest:
  assumes "parse_verse ls config = Inr (ws, r)"
  shows "set r \<subseteq> set ls"
proof (cases ls)
  case Nil
  with assms show ?thesis by (simp add: parse_verse_def)
next
  case (Cons l ls')
  obtain ws' where "parse_body (strip l) ls' config [] = Inr ([] @ ws', body_rest ls')"
    using parse_body_total by blast
  with assms Cons have "r = body_rest ls'"
    by (simp add: parse_verse_def Let_def split: if_splits)
  with Cons show ?thesis using body_rest_subset [of ls'] by auto
qed

lemma parse_verse_line_feed_free:
  assumes "list_all (\<lambda>l. 10 \<notin> set (butlast l)) ls" and "parse_verse ls config = Inr (ws, r)"
  shows "list_all line_feed_free ws"
proof -
  from assms(1) have "list_all (\<lambda>l. 10 \<notin> set (butlast l)) (tl ls)"
    by (cases ls) simp_all
  from parse_body_line_feed_free [OF this, of "[]"] assms(2) show ?thesis
    by (simp add: parse_verse_def Let_def split: if_splits)
qed

lemma parse_file_loop_line_feed_free:
  "list_all (\<lambda>l. 10 \<notin> set (butlast l)) ls \<Longrightarrow> list_all line_feed_free ret \<Longrightarrow>
     parse_file_loop ls config ret = Inr ws \<Longrightarrow> list_all line_feed_free ws"
proof (induction "length ls" arbitrary: ls ret rule: less_induct)
  case less
  from less.prems(3) obtain verse rest where v: "parse_verse ls config = Inr (verse, rest)"
    by (subst (asm) parse_file_loop.simps) (auto split: sum.splits)
  have verse: "list_all line_feed_free verse"
    using parse_verse_line_feed_free [OF less.prems(1) v] .
  show ?case
  proof (cases "rest = []")
    case True
    with less.prems(3) v have "ws = ret @ verse"
      by (subst (asm) parse_file_loop.simps) simp
    with verse less.prems(2) show ?thesis by simp
  next
    case False
    with less.prems(3) v have "parse_file_loop rest config (ret @ verse) = Inr ws"
      by (subst (asm) parse_file_loop.simps) simp
    moreover have "length rest < length ls"
      using v False by (rule parse_verse_rest_length)
    moreover have "list_all (\<lambda>l. 10 \<notin> set (butlast l)) rest"
      using parse_verse_rest [OF v] less.prems(1) by (auto simp: list_all_iff)
    ultimately show ?thesis
      using less.hyps [of rest "ret @ verse"] verse less.prems(2) by simp
  qed
qed

lemma parse_files_line_feed_free:
  "list_all line_feed_free words \<Longrightarrow> parse_files files config words = Inr ws \<Longrightarrow>
     list_all line_feed_free ws"
proof (induction files arbitrary: words)
  case Nil
  then show ?case by simp
next
  case (Cons f fs)
  from Cons.prems(2) obtain ws' where f: "parse_file f config = Inr ws'"
    and rest: "parse_files fs config (words @ ws') = Inr ws"
    by (auto split: sum.splits)
  have "list_all (\<lambda>l. 10 \<notin> set (butlast l)) (readlines f)"
    by (simp add: list_all_iff readlines_butlast)
  from parse_file_loop_line_feed_free [OF this, of "[]"] f have "list_all line_feed_free ws'"
    by (simp add: parse_file_def)
  with Cons.prems(1) Cons.IH [OF _ rest] show ?case by simp
qed

subsection \<open>Reading the generated configuration\<close>

lemma readlines_eq_Nil [simp]: "readlines s = [] \<longleftrightarrow> s = []"
  by (cases s) (auto split: list.splits)

lemma readlines_append:
  "s = [] \<or> last s = 10 \<Longrightarrow> readlines (s @ x) = readlines s @ readlines x"
proof (induction s)
  case Nil
  show ?case by simp
next
  case (Cons c cs)
  show ?case
  proof (cases "c = 10")
    case True
    with Cons show ?thesis by (cases "cs = []") simp_all
  next
    case False
    with Cons.prems have cs: "cs \<noteq> []" "last cs = 10" by (auto split: if_splits)
    then obtain l ls where l: "readlines cs = l # ls"
      by (cases "readlines cs") simp_all
    with Cons.IH cs False show ?thesis by simp
  qed
qed

lemma readlines_single: "10 \<notin> set s \<Longrightarrow> s \<noteq> [] \<Longrightarrow> readlines s = [s]"
proof (induction s)
  case Nil
  then show ?case by simp
next
  case (Cons c cs)
  then show ?case by (cases "cs = []") auto
qed

lemma set_join: "set (join sep xs) \<subseteq> set sep \<union> \<Union> (set ` set xs)"
  by (induction sep xs rule: join.induct) auto

lemma other_line_read:
  assumes "10 \<notin> \<Union> (set ` set ts)" and "COLON \<notin> \<Union> (set ` set ts)"
  shows "readlines (str ''other: '' @ join (str '', '') ts) = [str ''other: '' @ join (str '', '') ts]"
    and "count_list (str ''other: '' @ join (str '', '') ts) COLON = 1"
proof -
  have sep: "set (str '', '') = {COMMA, SPACE}" by (auto simp: str_def)
  have j: "10 \<notin> set (join (str '', '') ts)" "COLON \<notin> set (join (str '', '') ts)"
    using set_join [of "str '', ''" ts] assms unfolding sep by auto
  have "10 \<notin> set (str ''other: '' @ join (str '', '') ts)"
    using j(1) by (simp add: str_def)
  then show "readlines (str ''other: '' @ join (str '', '') ts) = [str ''other: '' @ join (str '', '') ts]"
    by (rule readlines_single) (simp add: str_def)
  have "count_list (join (str '', '') ts) COLON = 0"
    using j(2) by simp
  then show "count_list (str ''other: '' @ join (str '', '') ts) COLON = 1"
    by (simp add: str_def)
qed

lemma generated_config_read:
  assumes "10 \<notin> \<Union> (set ` set (unclaimed lower words))"
      and "COLON \<notin> \<Union> (set ` set (unclaimed lower words))"
  shows "read_config (Some (write_config lower words)) =
           Some (config_of_lines (readlines (write_config lower words)))"
proof -
  let ?other = "str ''other: '' @ join (str '', '') (unclaimed lower words)"
  have "list_all (\<lambda>line. count_list line COLON = 1) (readlines (write_config lower words))"
  proof (cases "unclaimed lower words = []")
    case True
    then show ?thesis
      using default_lines_read(1) by (simp add: write_config_unclaimed)
  next
    case False
    then have "readlines (write_config lower words) = readlines default_lines @ [?other]"
      using other_line_read(1) [OF assms] default_lines_read(2)
      by (simp add: write_config_unclaimed readlines_append)
    then show ?thesis
      using other_line_read(2) [OF assms] default_lines_read(1) by simp
  qed
  then show ?thesis
    by (simp add: read_config_def read_config_lines_acc config_of_lines_def)
qed

text \<open>
  C1 (as amended). Take a source directory without \<open>config.txt\<close> whose corpus parses (no
  stripped verse identifier holds a tab) to at least one Word, none of whose tags left
  for the line \<open>other:\<close> holds a colon. The first run writes the configuration; the second
  run reads it back, parses the same Words (now with their \<open>parts\<close>) and writes exactly
  one row for each of them.
\<close>

theorem round_trip_rows:
  assumes "config_txt dir = None"
      and "parse_files (rip_files dir) None [] = Inr words"
      and "words \<noteq> []"
      and "\<forall>t \<in> set (unclaimed lower words). COLON \<notin> set t"
  shows "\<exists>cfg words' header.
           main lower dir = Inr (dir\<lparr>config_txt := Some (write_config lower words)\<rparr>)
           \<and> read_config (Some (write_config lower words)) = Some cfg
           \<and> parse_files (rip_files dir) (Some cfg) [] = Inr words'
           \<and> map erase_parts words' = words
           \<and> main lower (dir\<lparr>config_txt := Some (write_config lower words)\<rparr>) =
               Inr (dir\<lparr>config_txt := Some (write_config lower words),
                        output_csv := Some (header, map (csv_row cfg) words')\<rparr>)
           \<and> length (map (csv_row cfg) words') = length words"
proof -
  let ?cfg = "config_of_lines (readlines (write_config lower words))"
  have first: "main lower dir = Inr (dir\<lparr>config_txt := Some (write_config lower words)\<rparr>)"
    using assms(1,2) by (simp add: main_def read_config_def)
  have "list_all line_feed_free words"
    using parse_files_line_feed_free [OF _ assms(2)] by simp
  then have "10 \<notin> \<Union> (set ` collect_parts words)"
    by (auto simp: collect_parts_raw_tags line_feed_free_def list_all_iff)
  then have nl: "10 \<notin> \<Union> (set ` set (unclaimed lower words))"
    by (simp add: unclaimed_props(1))
  have colon: "COLON \<notin> \<Union> (set ` set (unclaimed lower words))"
    using assms(4) by simp
  have cfg: "read_config (Some (write_config lower words)) = Some ?cfg"
    using nl colon by (rule generated_config_read)
  obtain words' where words': "parse_files (rip_files dir) (Some ?cfg) [] = Inr words'"
    and erased: "words = map erase_parts words'"
    using parse_files_with_config [OF assms(2)] by blast
  from erased assms(3) have len: "length words' = length words" and ne: "words' \<noteq> []"
    by auto
  have "main lower (dir\<lparr>config_txt := Some (write_config lower words)\<rparr>) =
               Inr (dir\<lparr>config_txt := Some (write_config lower words),
                        output_csv := Some (map fst (csv_row ?cfg (last words')), map (csv_row ?cfg) words')\<rparr>)"
    using cfg words' ne by (simp add: main_def write_csv_def)
  with first cfg words' erased len show ?thesis by auto
qed

text \<open>A corpus of one suffix line with the tags \<open>Noun\<close> and \<open>Hiphil\<close>.\<close>

definition hiphil_dir :: source_dir where
  "hiphil_dir = \<lparr>config_txt = None,
                 rip_files = [str ''v'' @ [10] @ str ''a'' @ [TAB] @ str ''b'' @ [TAB] @ str ''Noun Hiphil'' @ [10]],
                 output_csv = None\<rparr>"

definition hiphil_word :: word where
  "hiphil_word = \<lparr>verse_id = str ''v'', form = str ''a'', transliterated_form = str ''b'',
                   fts = Some [str ''Noun'', str ''Hiphil''], parts = None,
                   word_lemma = None, transliterated_lemma = None, translation = None\<rparr>"

lemma hiphil_dir_words: "parse_files (rip_files hiphil_dir) None [] = Inr [hiphil_word]"
proof -
  have "parse_file (str ''v'' @ [10] @ str ''a'' @ [TAB] @ str ''b'' @ [TAB] @ str ''Noun Hiphil'' @ [10]) None
          = Inr [hiphil_word]"
    unfolding parse_file_def
    by (subst parse_file_loop.simps)
       (simp add: parse_verse_def str_def strip_def isspace_def skip_chars_def parse_suffix_def
          handle_parts_def hiphil_word_def)
  then show ?thesis by (simp add: hiphil_dir_def)
qed

theorem round_trip_rows_witness:
  "config_txt hiphil_dir = None
   \<and> parse_files (rip_files hiphil_dir) None [] = Inr [hiphil_word]
   \<and> [hiphil_word] \<noteq> []
   \<and> set (unclaimed (\<lambda>s. s) [hiphil_word]) = {str ''Hiphil''}
   \<and> (\<exists>cfg words' header.
           main (\<lambda>s. s) hiphil_dir = Inr (hiphil_dir\<lparr>config_txt := Some (write_config (\<lambda>s. s) [hiphil_word])\<rparr>)
           \<and> read_config (Some (write_config (\<lambda>s. s) [hiphil_word])) = Some cfg
           \<and> parse_files (rip_files hiphil_dir) (Some cfg) [] = Inr words'
           \<and> map erase_parts words' = [hiphil_word]
           \<and> main (\<lambda>s. s) (hiphil_dir\<lparr>config_txt := Some (write_config (\<lambda>s. s) [hiphil_word])\<rparr>) =
               Inr (hiphil_dir\<lparr>config_txt := Some (write_config (\<lambda>s. s) [hiphil_word]),
                        output_csv := Some (header, map (csv_row cfg) words')\<rparr>)
           \<and> length (map (csv_row cfg) words') = length [hiphil_word])"
proof -
  have h1: "config_txt hiphil_dir = None" by (simp add: hiphil_dir_def)
  have h3: "[hiphil_word] \<noteq> []" by simp
  have u: "set (unclaimed (\<lambda>s. s) [hiphil_word]) = {str ''Hiphil''}"
    unfolding unclaimed_props(1) collect_parts_raw_tags
    by (auto simp: raw_tags_def hiphil_word_def builtin_values_def DEFAULT_PARTS_def str_def)
  have h4: "\<forall>t \<in> set (unclaimed (\<lambda>s. s) [hiphil_word]). COLON \<notin> set t"
    unfolding u by (simp add: str_def)
  from round_trip_rows [OF h1 hiphil_dir_words h3 h4] h1 hiphil_dir_words h3 u
  show ?thesis by blast
qed

lemma round_trip_crashes:
  "main (\<lambda>s. s) \<lparr>config_txt = None, rip_files = [], output_csv = None\<rparr> =
     Inr \<lparr>config_txt = Some default_lines, rip_files = [], output_csv = None\<rparr>
   \<and> main (\<lambda>s. s) \<lparr>config_txt = Some default_lines, rip_files = [], output_csv = None\<rparr> =
     Inl UnboundLocalError
   \<and> main (\<lambda>s. s) \<lparr>config_txt = None, rip_files = [str ''a'' @ [TAB] @ str ''b'' @ [10]], output_csv = None\<rparr> =
     Inl AssertionError"
proof -
  have u: "unclaimed (\<lambda>s. s) [] = []"
    using unclaimed_props(1) [of "\<lambda>s. s" "[]"] by (simp add: collect_parts_def)
  then have w: "write_config (\<lambda>s. s) [] = default_lines"
    by (simp add: write_config_unclaimed)
  have r: "read_config (Some default_lines) = Some (config_of_lines (readlines default_lines))"
    using generated_config_read [of "\<lambda>s. s" "[]"] u w by simp
  have t: "parse_file (str ''a'' @ [TAB] @ str ''b'' @ [10]) None = Inl AssertionError"
    unfolding parse_file_def
    by (subst parse_file_loop.simps) (simp add: parse_verse_def str_def strip_def isspace_def)
  have "main (\<lambda>s. s) \<lparr>config_txt = None, rip_files = [str ''a'' @ [TAB] @ str ''b'' @ [10]], output_csv = None\<rparr> =
     Inl AssertionError"
    using t by (simp add: main_def read_config_def)
  moreover have "main (\<lambda>s. s) \<lparr>config_txt = None, rip_files = [], output_csv = None\<rparr> =
     Inr \<lparr>config_txt = Some default_lines, rip_files = [], output_csv = None\<rparr>"
    using w by (simp add: main_def read_config_def)
  moreover have "main (\<lambda>s. s) \<lparr>config_txt = Some default_lines, rip_files = [], output_csv = None\<rparr> =
     Inl UnboundLocalError"
    using r by (simp add: main_def write_csv_def)
  ultimately show ?thesis by simp
qed

lemma singleton_list:
  assumes "set xs = {a}" and "distinct xs"
  shows "xs = [a]"
proof (cases xs)
  case Nil
  with assms(1) show ?thesis by simp
next
  case (Cons x ys)
  with assms(1) have x: "x = a" and ys: "set ys \<subseteq> {a}" by auto
  from assms(2) Cons x have "a \<notin> set ys" by simp
  with ys have "ys = []" by (cases ys) auto
  with Cons x show ?thesis by simp
qed


text \<open>A corpus of one suffix line with the tag \<open>x:y\<close>.\<close>

definition colon_dir :: source_dir where
  "colon_dir = \<lparr>config_txt = None,
                rip_files = [str ''v'' @ [10] @ str ''a'' @ [TAB] @ str ''b'' @ [TAB] @ str ''x:y'' @ [10]],
                output_csv = None\<rparr>"

lemma colon_dir_words:
  "parse_files (rip_files colon_dir) None [] =
     Inr [\<lparr>verse_id = str ''v'', form = str ''a'', transliterated_form = str ''b'',
           fts = Some [str ''x:y''], parts = None,
           word_lemma = None, transliterated_lemma = None, translation = None\<rparr>]"
proof -
  have "parse_file (str ''v'' @ [10] @ str ''a'' @ [TAB] @ str ''b'' @ [TAB] @ str ''x:y'' @ [10]) None
          = Inr [\<lparr>verse_id = str ''v'', form = str ''a'', transliterated_form = str ''b'',
           fts = Some [str ''x:y''], parts = None,
           word_lemma = None, transliterated_lemma = None, translation = None\<rparr>]"
    unfolding parse_file_def
    by (subst parse_file_loop.simps)
       (simp add: parse_verse_def str_def strip_def isspace_def skip_chars_def parse_suffix_def
          handle_parts_def)
  then show ?thesis by (simp add: colon_dir_def)
qed

lemma colon_dir_config:
  "write_config (\<lambda>s. s)
     [\<lparr>verse_id = str ''v'', form = str ''a'', transliterated_form = str ''b'',
           fts = Some [str ''x:y''], parts = None,
           word_lemma = None, transliterated_lemma = None, translation = None\<rparr>]
   = default_lines @ str ''other: x:y''"
  "read_config (Some (default_lines @ str ''other: x:y'')) = None"
proof -
  let ?w = "\<lparr>verse_id = str ''v'', form = str ''a'', transliterated_form = str ''b'',
           fts = Some [str ''x:y''], parts = None,
           word_lemma = None, transliterated_lemma = None, translation = None\<rparr>"
  have "set (unclaimed (\<lambda>s. s) [?w]) = {str ''x:y''}"
    unfolding unclaimed_props(1) collect_parts_raw_tags
    by (auto simp: raw_tags_def builtin_values_def DEFAULT_PARTS_def str_def)
  moreover have "distinct (unclaimed (\<lambda>s. s) [?w])"
    by (rule unclaimed_props(2))
  ultimately have "unclaimed (\<lambda>s. s) [?w] = [str ''x:y'']"
    by (rule singleton_list)
  then show "write_config (\<lambda>s. s) [?w] = default_lines @ str ''other: x:y''"
    by (simp add: write_config_unclaimed str_def)
  have "readlines (default_lines @ str ''other: x:y'') = readlines default_lines @ [str ''other: x:y'']"
    using default_lines_read(2) by (simp add: readlines_append readlines_single str_def)
  then show "read_config (Some (default_lines @ str ''other: x:y'')) = None"
    by (simp add: read_config_def read_config_lines_acc str_def)
qed

lemma colon_dir_runs:
  "main (\<lambda>s. s) colon_dir = Inr (colon_dir\<lparr>config_txt := Some (default_lines @ str ''other: x:y'')\<rparr>)"
  "main (\<lambda>s. s) (colon_dir\<lparr>config_txt := Some (default_lines @ str ''other: x:y'')\<rparr>) =
     Inr (colon_dir\<lparr>config_txt := Some (default_lines @ str ''other: x:y'')\<rparr>)"
  "output_csv (colon_dir\<lparr>config_txt := Some (default_lines @ str ''other: x:y'')\<rparr>) = None"
proof -
  have c: "config_txt colon_dir = None" "output_csv colon_dir = None"
    by (simp_all add: colon_dir_def)
  show "main (\<lambda>s. s) colon_dir = Inr (colon_dir\<lparr>config_txt := Some (default_lines @ str ''other: x:y'')\<rparr>)"
    using colon_dir_words colon_dir_config(1) c by (simp add: main_def read_config_def)
  show "main (\<lambda>s. s) (colon_dir\<lparr>config_txt := Some (default_lines @ str ''other: x:y'')\<rparr>) =
     Inr (colon_dir\<lparr>config_txt := Some (default_lines @ str ''other: x:y'')\<rparr>)"
    using colon_dir_words colon_dir_config c by (simp add: main_def)
  show "output_csv (colon_dir\<lparr>config_txt := Some (default_lines @ str ''other: x:y'')\<rparr>) = None"
    using c by simp
qed

text \<open>Three corpora on which the two runs do not end in a table. With no input file the first run writes the
  built-in lines and the second run stops on the unassigned \<open>w\<close>; with a tab inside the
  first verse identifier the first run stops on the assertion; with the tag \<open>x:y\<close> the
  second run cannot read the configuration, writes it again and writes no table.\<close>

theorem round_trip_counterexample:
  "main (\<lambda>s. s) \<lparr>config_txt = None, rip_files = [], output_csv = None\<rparr> =
     Inr \<lparr>config_txt = Some default_lines, rip_files = [], output_csv = None\<rparr>
   \<and> main (\<lambda>s. s) \<lparr>config_txt = Some default_lines, rip_files = [], output_csv = None\<rparr> =
     Inl UnboundLocalError
   \<and> main (\<lambda>s. s) \<lparr>config_txt = None, rip_files = [str ''a'' @ [TAB] @ str ''b'' @ [10]], output_csv = None\<rparr> =
     Inl AssertionError
   \<and> main (\<lambda>s. s) colon_dir = Inr (colon_dir\<lparr>config_txt := Some (default_lines @ str ''other: x:y'')\<rparr>)
   \<and> main (\<lambda>s. s) (colon_dir\<lparr>config_txt := Some (default_lines @ str ''other: x:y'')\<rparr>) =
       Inr (colon_dir\<lparr>config_txt := Some (default_lines @ str ''other: x:y'')\<rparr>)
   \<and> output_csv (colon_dir\<lparr>config_txt := Some (default_lines @ str ''other: x:y'')\<rparr>) = None"
  using round_trip_crashes colon_dir_runs by simp


section \<open>The empty tag field\<close>

lemma column_value_empty_tag:
  assumes "parts w = handle_parts [] config"
  shows "column_value terms w = []"
proof (cases "handle_parts [] config")
  case None
  with assms show ?thesis by (simp add: column_value_def met_terms_def)
next
  case (Some d)
  then have keys: "set (map fst d) = {[]}"
    using handle_parts_keys [OF Some] by simp
  then have "d \<noteq> []" by auto
  with assms Some keys have m: "met_terms terms w = Some (terms \<inter> {[]})"
    by (simp add: met_terms_def)
  show ?thesis
  proof (cases "[] \<in> terms")
    case True
    then have "terms \<inter> {[]} = {[]}" by blast
    with m show ?thesis by (simp add: column_value_def)
  next
    case False
    then have "terms \<inter> {[]} = {}" by blast
    with m show ?thesis by (simp add: column_value_def)
  qed
qed

lemma fts_column_empty_tag:
  assumes "parts w = handle_parts [] config" and "fts w = Some [[]]"
  shows "map_of (csv_row cfg w) (str ''fts'') =
           Some (Some (if str ''fts'' \<in> fst ` set cfg then [] else str ''[]''))"
proof (cases "map_of (rev cfg) (str ''fts'')")
  case None
  then have "str ''fts'' \<notin> fst ` set cfg"
    by (simp add: map_of_eq_None_iff)
  moreover have "map_of (base_row w) (str ''fts'') = Some (Some (str ''[]''))"
    using assms(2) by (simp add: base_row_def str_def)
  ultimately show ?thesis
    using None by (simp add: map_of_csv_row)
next
  case (Some terms)
  then have "str ''fts'' \<in> fst ` set cfg"
    using map_of_SomeD [OF Some] by force
  with Some show ?thesis
    by (simp add: map_of_csv_row column_value_empty_tag [OF assms(1)])
qed

lemma write_csv_rows:
  "write_csv (before @ w # after) cfg =
     Inr (map fst (csv_row cfg (last (w # after))), map (csv_row cfg) before @ csv_row cfg w # map (csv_row cfg) after)"
  by (simp add: write_csv_def)

text \<open>
  C10 (as amended). A line of a verse body that, stripped, holds none of the skip markers
  and splits into six fields at its tabs, the fifth of them empty, yields a Word whose
  tags are present and are the list of the empty string alone. In the table that
  \<open>write_csv\<close> writes for any words with this Word among them, the row of the Word has
  \<open>[]\<close> in its \<open>fts\<close> column when no category of the configuration is named \<open>fts\<close>; a
  category of that name takes the column over, and the column is then the empty string.
\<close>

theorem empty_tag_field:
  assumes "\<not> list_ex (\<lambda>skip_char. contains skip_char (strip raw)) skip_chars"
      and "split TAB (strip raw) = [f1, f2, f3, f4, [], f6]"
  shows "\<exists>w ws r. parse_body verse (raw # rest) config ret = Inr (ret @ w # ws, r)
           \<and> fts w = Some [[]]
           \<and> (\<exists>header rows.
                 write_csv (before @ w # after) cfg = Inr (header, rows)
                 \<and> length rows = Suc (length before + length after)
                 \<and> map_of (rows ! length before) (str ''fts'') =
                     Some (Some (if str ''fts'' \<in> fst ` set cfg then [] else str ''[]'')))"
proof -
  let ?w = "\<lparr>verse_id = verse, form = f1, transliterated_form = f2,
             fts = Some (split SPACE []), parts = handle_parts [] config,
             word_lemma = Some f3, transliterated_lemma = Some f4, translation = Some f6\<rparr>"
  let ?rows = "map (csv_row cfg) before @ csv_row cfg ?w # map (csv_row cfg) after"
  obtain ws where "parse_body verse rest config (ret @ [?w]) = Inr ((ret @ [?w]) @ ws, body_rest rest)"
    using parse_body_total by blast
  then have step: "parse_body verse (raw # rest) config ret = Inr (ret @ ?w # ws, body_rest rest)"
    using parse_body_word6_step [OF assms] by simp
  have tags: "fts ?w = Some [[]]" by simp
  have col: "map_of (csv_row cfg ?w) (str ''fts'') =
           Some (Some (if str ''fts'' \<in> fst ` set cfg then [] else str ''[]''))"
    by (rule fts_column_empty_tag) simp_all
  have nth: "?rows ! length before = csv_row cfg ?w"
    by (simp add: nth_append)
  have "write_csv (before @ ?w # after) cfg = Inr (map fst (csv_row cfg (last (?w # after))), ?rows)"
    by (rule write_csv_rows)
  moreover have "length ?rows = Suc (length before + length after)" by simp
  moreover have "map_of (?rows ! length before) (str ''fts'') =
           Some (Some (if str ''fts'' \<in> fst ` set cfg then [] else str ''[]''))"
    unfolding nth by (rule col)
  ultimately show ?thesis using step tags by blast
qed

text \<open>A word line of six fields with an empty fifth field, a corpus of one verse that
  holds it, and the Word parsed from it under a configuration.\<close>

definition line_empty_tags :: ustring where
  "line_empty_tags = str ''a'' @ [TAB] @ str ''b'' @ [TAB] @ str ''c'' @ [TAB] @ str ''d'' @ [TAB, TAB] @ str ''e'' @ [10]"

definition empty_tags_word :: word where
  "empty_tags_word = \<lparr>verse_id = str ''v'', form = str ''a'', transliterated_form = str ''b'',
                       fts = Some [[]], parts = Some [([], Tag [])],
                       word_lemma = Some (str ''c''), transliterated_lemma = Some (str ''d''),
                       translation = Some (str ''e'')\<rparr>"

lemma line_empty_tags_fields:
  "\<not> list_ex (\<lambda>skip_char. contains skip_char (strip line_empty_tags)) skip_chars"
  "split TAB (strip line_empty_tags) = [str ''a'', str ''b'', str ''c'', str ''d'', [], str ''e'']"
  by (simp_all add: line_empty_tags_def str_def strip_def isspace_def skip_chars_def)

lemma empty_tags_parse:
  assumes "map_of cfg [] = None"
  shows "parse_files [str ''v'' @ [10] @ line_empty_tags] (Some cfg) [] = Inr [empty_tags_word]"
proof -
  have "readlines (str ''v'' @ [10] @ line_empty_tags) = [str ''v'' @ [10], line_empty_tags]"
    by (simp add: line_empty_tags_def str_def)
  moreover have "parse_verse [str ''v'' @ [10], line_empty_tags] (Some cfg) = Inr ([empty_tags_word], [])"
    using assms parse_body_word6_step [OF line_empty_tags_fields, of "str ''v''" "[]" "Some cfg" "[]"]
    by (simp add: parse_verse_def str_def strip_def isspace_def handle_parts_def config_get_def
        empty_tags_word_def)
  ultimately have "parse_file (str ''v'' @ [10] @ line_empty_tags) (Some cfg) = Inr [empty_tags_word]"
    unfolding parse_file_def by (subst parse_file_loop.simps) simp
  then show ?thesis by simp
qed

lemma empty_tags_rows:
  "csv_row [(str ''pos'', {str '' noun''})] empty_tags_word =
     [(str ''verse_id'', Some (str ''v'')), (str ''form'', Some (str ''a'')),
      (str ''transliterated_form'', Some (str ''b'')), (str ''lemma'', Some (str ''c'')),
      (str ''transliterated_lemma'', Some (str ''d'')), (str ''fts'', Some (str ''[]'')),
      (str ''translation'', Some (str ''e'')), (str ''pos'', Some [])]"
  "csv_row [(str ''fts'', {str ''x''})] empty_tags_word =
     [(str ''verse_id'', Some (str ''v'')), (str ''form'', Some (str ''a'')),
      (str ''transliterated_form'', Some (str ''b'')), (str ''lemma'', Some (str ''c'')),
      (str ''transliterated_lemma'', Some (str ''d'')), (str ''fts'', Some []),
      (str ''translation'', Some (str ''e''))]"
  by (simp_all add: csv_row_def base_row_def column_value_def met_terms_def empty_tags_word_def str_def)

lemma empty_tags_main_pos:
  "main (\<lambda>s. s) \<lparr>config_txt = Some (str ''pos: noun''),
                  rip_files = [str ''v'' @ [10] @ line_empty_tags], output_csv = None\<rparr> =
     Inr \<lparr>config_txt = Some (str ''pos: noun''),
          rip_files = [str ''v'' @ [10] @ line_empty_tags],
          output_csv = Some
            ([str ''verse_id'', str ''form'', str ''transliterated_form'', str ''lemma'',
              str ''transliterated_lemma'', str ''fts'', str ''translation'', str ''pos''],
             [[(str ''verse_id'', Some (str ''v'')), (str ''form'', Some (str ''a'')),
               (str ''transliterated_form'', Some (str ''b'')), (str ''lemma'', Some (str ''c'')),
               (str ''transliterated_lemma'', Some (str ''d'')), (str ''fts'', Some (str ''[]'')),
               (str ''translation'', Some (str ''e'')), (str ''pos'', Some [])]])\<rparr>"
proof -
  have c: "read_config (Some (str ''pos: noun'')) = Some [(str ''pos'', {str '' noun''})]"
    by (simp add: read_config_def str_def strip_def isspace_def)
  have p: "parse_files [str ''v'' @ [10] @ line_empty_tags] (Some [(str ''pos'', {str '' noun''})]) []
             = Inr [empty_tags_word]"
    by (rule empty_tags_parse) (simp add: str_def)
  show ?thesis
    using c p by (simp add: main_def write_csv_def empty_tags_rows)
qed

lemma empty_tags_main_fts:
  "main (\<lambda>s. s) \<lparr>config_txt = Some (str ''fts:x''),
                  rip_files = [str ''v'' @ [10] @ line_empty_tags], output_csv = None\<rparr> =
     Inr \<lparr>config_txt = Some (str ''fts:x''),
          rip_files = [str ''v'' @ [10] @ line_empty_tags],
          output_csv = Some
            ([str ''verse_id'', str ''form'', str ''transliterated_form'', str ''lemma'',
              str ''transliterated_lemma'', str ''fts'', str ''translation''],
             [[(str ''verse_id'', Some (str ''v'')), (str ''form'', Some (str ''a'')),
               (str ''transliterated_form'', Some (str ''b'')), (str ''lemma'', Some (str ''c'')),
               (str ''transliterated_lemma'', Some (str ''d'')), (str ''fts'', Some []),
               (str ''translation'', Some (str ''e''))]])\<rparr>"
proof -
  have c: "read_config (Some (str ''fts:x'')) = Some [(str ''fts'', {str ''x''})]"
    by (simp add: read_config_def str_def strip_def isspace_def)
  have p: "parse_files [str ''v'' @ [10] @ line_empty_tags] (Some [(str ''fts'', {str ''x''})]) []
             = Inr [empty_tags_word]"
    by (rule empty_tags_parse) (simp add: str_def)
  show ?thesis
    using c p by (simp add: main_def write_csv_def empty_tags_rows)
qed

text \<open>The theorem at that line under the configuration \<open>pos: noun\<close>, and the whole run.\<close>

theorem empty_tag_field_witness:
  "\<not> list_ex (\<lambda>skip_char. contains skip_char (strip line_empty_tags)) skip_chars
   \<and> split TAB (strip line_empty_tags) = [str ''a'', str ''b'', str ''c'', str ''d'', [], str ''e'']
   \<and> str ''fts'' \<notin> fst ` set [(str ''pos'', {str '' noun''})]
   \<and> (\<exists>w ws r. parse_body (str ''v'') [line_empty_tags] (Some [(str ''pos'', {str '' noun''})]) []
                   = Inr ([] @ w # ws, r)
           \<and> fts w = Some [[]]
           \<and> (\<exists>header rows.
                 write_csv ([] @ w # []) [(str ''pos'', {str '' noun''})] = Inr (header, rows)
                 \<and> length rows = Suc (length ([] :: word list) + length ([] :: word list))
                 \<and> map_of (rows ! length ([] :: word list)) (str ''fts'') = Some (Some (str ''[]''))))
   \<and> main (\<lambda>s. s) \<lparr>config_txt = Some (str ''pos: noun''),
                  rip_files = [str ''v'' @ [10] @ line_empty_tags], output_csv = None\<rparr> =
     Inr \<lparr>config_txt = Some (str ''pos: noun''),
          rip_files = [str ''v'' @ [10] @ line_empty_tags],
          output_csv = Some
            ([str ''verse_id'', str ''form'', str ''transliterated_form'', str ''lemma'',
              str ''transliterated_lemma'', str ''fts'', str ''translation'', str ''pos''],
             [[(str ''verse_id'', Some (str ''v'')), (str ''form'', Some (str ''a'')),
               (str ''transliterated_form'', Some (str ''b'')), (str ''lemma'', Some (str ''c'')),
               (str ''transliterated_lemma'', Some (str ''d'')), (str ''fts'', Some (str ''[]'')),
               (str ''translation'', Some (str ''e'')), (str ''pos'', Some [])]])\<rparr>"
proof -
  have h3: "str ''fts'' \<notin> fst ` set [(str ''pos'', {str '' noun''})]"
    by (simp add: str_def)
  from empty_tag_field [OF line_empty_tags_fields, of "str ''v''" "[]"
         "Some [(str ''pos'', {str '' noun''})]" "[]" "[]" "[]" "[(str ''pos'', {str '' noun''})]"]
  have "\<exists>w ws r. parse_body (str ''v'') [line_empty_tags] (Some [(str ''pos'', {str '' noun''})]) []
                   = Inr ([] @ w # ws, r)
           \<and> fts w = Some [[]]
           \<and> (\<exists>header rows.
                 write_csv ([] @ w # []) [(str ''pos'', {str '' noun''})] = Inr (header, rows)
                 \<and> length rows = Suc (length ([] :: word list) + length ([] :: word list))
                 \<and> map_of (rows ! length ([] :: word list)) (str ''fts'') = Some (Some (str ''[]'')))"
    using h3 by (simp only: if_False)
  with line_empty_tags_fields h3 empty_tags_main_pos show ?thesis by blast
qed

text \<open>Under the configuration \<open>fts:x\<close> the tags of the Word are the list of the empty
  string, and the \<open>fts\<close> column of its row in the table is the empty string.\<close>

theorem fts_category_counterexample:
  "read_config (Some (str ''fts:x'')) = Some [(str ''fts'', {str ''x''})]
   \<and> parse_files [str ''v'' @ [10] @ line_empty_tags] (Some [(str ''fts'', {str ''x''})]) []
       = Inr [empty_tags_word]
   \<and> fts empty_tags_word = Some [[]]
   \<and> main (\<lambda>s. s) \<lparr>config_txt = Some (str ''fts:x''),
                  rip_files = [str ''v'' @ [10] @ line_empty_tags], output_csv = None\<rparr> =
     Inr \<lparr>config_txt = Some (str ''fts:x''),
          rip_files = [str ''v'' @ [10] @ line_empty_tags],
          output_csv = Some
            ([str ''verse_id'', str ''form'', str ''transliterated_form'', str ''lemma'',
              str ''transliterated_lemma'', str ''fts'', str ''translation''],
             [[(str ''verse_id'', Some (str ''v'')), (str ''form'', Some (str ''a'')),
               (str ''transliterated_form'', Some (str ''b'')), (str ''lemma'', Some (str ''c'')),
               (str ''transliterated_lemma'', Some (str ''d'')), (str ''fts'', Some []),
               (str ''translation'', Some (str ''e''))]])\<rparr>"
proof -
  have "read_config (Some (str ''fts:x'')) = Some [(str ''fts'', {str ''x''})]"
    by (simp add: read_config_def str_def strip_def isspace_def)
  moreover have "parse_files [str ''v'' @ [10] @ line_empty_tags] (Some [(str ''fts'', {str ''x''})]) []
             = Inr [empty_tags_word]"
    by (rule empty_tags_parse) (simp add: str_def)
  moreover have "fts empty_tags_word = Some [[]]"
    by (simp add: empty_tags_word_def)
  ultimately show ?thesis using empty_tags_main_fts by blast
qed

end
